theory Spec2Isabelle
  imports Complex_Main
begin

section \<open>Order-book reconstruction (hooks useOrderBook and useOrderBookAuto)\<close>

subsection \<open>Data\<close>

text \<open>
  A price level is the two-element array \<open>[price, size]\<close> of the feed; both components
  are the strings the exchange sends. The hook keeps each side as an array of levels.
\<close>

type_synonym level = "string \<times> string"

record book =
  bids :: "level list"
  asks :: "level list"
  timestamp :: "int option"
  updateId :: "int option"
  lastUpdate :: "int option"

text \<open>
  The \<open>data\<close> object of a feed message. A field that is absent (\<open>undefined\<close>) is
  \<open>None\<close>. Every message that reaches a hook or the proxy is a parsed JSON object; one
  that is a snapshot or a delta carries its \<open>data\<close> object, and the update id and the
  timestamp in it are integers.
\<close>

record bookData =
  data_b :: "level list option"
  data_a :: "level list option"
  data_u :: "int option"
  data_ts :: "int option"

record message =
  msg_op :: "string option"
  topic :: "string option"
  mtype :: "string option"
  mdata :: bookData

record hookState =
  orderBook :: book
  isLoading :: bool
  paused :: bool

text \<open>The state \<open>useState\<close> starts from, and the one the symbol-change effect restores.\<close>

definition initialBook :: book where
  "initialBook = \<lparr>bids = [], asks = [], timestamp = None, updateId = None, lastUpdate = None\<rparr>"

definition initialHook :: hookState where
  "initialHook = \<lparr>orderBook = initialBook, isLoading = True, paused = False\<rparr>"

subsection \<open>JavaScript operators the hooks use\<close>

text \<open>\<open>x || y\<close> on a number that may be absent: \<open>undefined\<close>, \<open>null\<close> and \<open>0\<close> are falsy.\<close>

definition truthy :: "int option \<Rightarrow> bool" where
  "truthy v = (case v of None \<Rightarrow> False | Some n \<Rightarrow> n \<noteq> 0)"

definition orNum :: "int option \<Rightarrow> int \<Rightarrow> int" where
  "orNum v d = (case v of None \<Rightarrow> d | Some n \<Rightarrow> if n = 0 then d else n)"

definition orOpt :: "int option \<Rightarrow> int option \<Rightarrow> int option" where
  "orOpt v w = (if truthy v then v else w)"

text \<open>\<open>xs || []\<close>: an array, even an empty one, is truthy.\<close>

definition orEmpty :: "'a list option \<Rightarrow> 'a list" where
  "orEmpty v = (case v of None \<Rightarrow> [] | Some xs \<Rightarrow> xs)"

text \<open>
  A JavaScript \<open>Map\<close> keeps its entries in insertion order: \<open>set\<close> overwrites the value
  of a key that is present, in place, and appends a new key at the end; \<open>delete\<close>
  removes the entry. \<open>new Map(pairs)\<close> sets the pairs one after the other, and
  \<open>Array.from(m.entries())\<close> reads the entries back in insertion order.
\<close>

fun mapSet :: "'k \<Rightarrow> 'v \<Rightarrow> ('k \<times> 'v) list \<Rightarrow> ('k \<times> 'v) list" where
  "mapSet k v [] = [(k, v)]"
| "mapSet k v ((k', v') # m) = (if k' = k then (k, v) # m else (k', v') # mapSet k v m)"

fun mapDelete :: "'k \<Rightarrow> ('k \<times> 'v) list \<Rightarrow> ('k \<times> 'v) list" where
  "mapDelete k [] = []"
| "mapDelete k ((k', v') # m) = (if k' = k then m else (k', v') # mapDelete k m)"

definition mapGet :: "('k \<times> 'v) list \<Rightarrow> 'k \<Rightarrow> 'v option" where
  "mapGet m k = map_of m k"

definition newMap :: "('k \<times> 'v) list \<Rightarrow> ('k \<times> 'v) list" where
  "newMap ps = foldl (\<lambda>m (k, v). mapSet k v m) [] ps"

text \<open>
  \<open>Array.prototype.sort\<close> with a comparator: a stable sort (ECMAScript 2019) that
  puts \<open>x\<close> before \<open>y\<close> when \<open>cmp x y\<close> is negative and keeps the order of the input
  when it is zero. For a consistent comparator the result does not depend on the engine's
  algorithm; here it is computed by insertion from the right.
\<close>

fun insertBy :: "('a \<Rightarrow> 'a \<Rightarrow> rat) \<Rightarrow> 'a \<Rightarrow> 'a list \<Rightarrow> 'a list" where
  "insertBy cmp x [] = [x]"
| "insertBy cmp x (y # ys) = (if cmp x y \<le> 0 then x # y # ys else y # insertBy cmp x ys)"

definition sortBy :: "('a \<Rightarrow> 'a \<Rightarrow> rat) \<Rightarrow> 'a list \<Rightarrow> 'a list" where
  "sortBy cmp xs = foldr (insertBy cmp) xs []"

text \<open>
  \<open>parseFloat\<close> is a parameter \<open>pf\<close> of the model: the number a string parses to.
  The hooks use it in two ways only, the test \<open>parseFloat(size) === 0\<close> and the sign of
  a difference of two parsed prices, so every result below holds for whatever the
  builtin computes on strings that parse to a number. (A price that parses to NaN makes
  the comparator inconsistent and the order of the sort implementation-defined; that
  case is outside the model.)

  \<open>parseFloatDec\<close> is the builtin on the unsigned decimal literals of the feed
  (digits, optionally a point and digits; no sign, no exponent), with the exact value.
\<close>

definition isDigit :: "char \<Rightarrow> bool" where
  "isDigit c = (48 \<le> (of_char c :: nat) \<and> (of_char c :: nat) \<le> 57)"

definition digitsValue :: "string \<Rightarrow> nat" where
  "digitsValue ds = foldl (\<lambda>acc c. 10 * acc + ((of_char c :: nat) - 48)) 0 ds"

definition parseFloatDec :: "string \<Rightarrow> rat" where
  "parseFloatDec s =
     (let ip = takeWhile isDigit s;
          rest = dropWhile isDigit s;
          fp = (case rest of [] \<Rightarrow> [] | c # r \<Rightarrow> if c = CHR ''.'' then takeWhile isDigit r else [])
      in of_nat (digitsValue ip) + of_nat (digitsValue fp) / 10 ^ length fp)"

text \<open>The two comparators: \<open>(a, b) => parseFloat(b[0]) - parseFloat(a[0])\<close> for bids,
  \<open>(a, b) => parseFloat(a[0]) - parseFloat(b[0])\<close> for asks.\<close>

definition cmpDesc :: "(string \<Rightarrow> rat) \<Rightarrow> level \<Rightarrow> level \<Rightarrow> rat" where
  "cmpDesc pf x y = pf (fst y) - pf (fst x)"

definition cmpAsc :: "(string \<Rightarrow> rat) \<Rightarrow> level \<Rightarrow> level \<Rightarrow> rat" where
  "cmpAsc pf x y = pf (fst x) - pf (fst y)"

subsection \<open>useOrderBook: applySnapshot, applyDelta, handleMessage\<close>

text \<open>
  \<open>Date.now()\<close> is read twice in each function, for \<open>timestamp\<close> and for
  \<open>lastUpdate\<close>; the two readings are the arguments \<open>t1\<close> and \<open>t2\<close>.
\<close>

definition applySnapshot :: "int \<Rightarrow> int \<Rightarrow> bookData \<Rightarrow> book" where
  "applySnapshot t1 t2 d =
     \<lparr>bids = orEmpty (data_b d),
      asks = orEmpty (data_a d),
      timestamp = Some (orNum (data_ts d) t1),
      updateId = Some (orNum (data_u d) 0),
      lastUpdate = Some t2\<rparr>"

text \<open>The body of \<open>data.b.forEach\<close> / \<open>data.a.forEach\<close>.\<close>

definition applyEntry :: "(string \<Rightarrow> rat) \<Rightarrow> level list \<Rightarrow> level \<Rightarrow> level list" where
  "applyEntry pf m e =
     (case e of (price, sz) \<Rightarrow>
        if pf sz = 0 then mapDelete price m else mapSet price sz m)"

text \<open>One side of the incremental branch; \<open>slice(0, depth)\<close> is \<open>take depth\<close>.\<close>

definition patchSide ::
  "(string \<Rightarrow> rat) \<Rightarrow> (level \<Rightarrow> level \<Rightarrow> rat) \<Rightarrow> nat \<Rightarrow> level list option \<Rightarrow> level list \<Rightarrow> level list"
where
  "patchSide pf cmp depth upd cur =
     (case upd of
        None \<Rightarrow> cur
      | Some es \<Rightarrow>
          if length es > 0
          then take depth (sortBy cmp (foldl (applyEntry pf) (newMap cur) es))
          else cur)"

definition applyDelta ::
  "(string \<Rightarrow> rat) \<Rightarrow> nat \<Rightarrow> int \<Rightarrow> int \<Rightarrow> bookData \<Rightarrow> book \<Rightarrow> book"
where
  "applyDelta pf depth t1 t2 d currentBook =
     (let uid = orOpt (data_u d) (updateId currentBook) in
      if uid = Some 1
      then \<lparr>bids = orEmpty (data_b d),
            asks = orEmpty (data_a d),
            timestamp = Some (orNum (data_ts d) t1),
            updateId = uid,
            lastUpdate = Some t2\<rparr>
      else currentBook
             \<lparr>bids := patchSide pf (cmpDesc pf) depth (data_b d) (bids currentBook),
              asks := patchSide pf (cmpAsc pf) depth (data_a d) (asks currentBook),
              timestamp := Some (orNum (data_ts d) t1),
              updateId := uid,
              lastUpdate := Some t2\<rparr>)"

text \<open>\<open>String.prototype.includes\<close>, and the decimal rendering of a number in a template.\<close>

fun strIncludes :: "string \<Rightarrow> string \<Rightarrow> bool" where
  "strIncludes [] pat = (pat = [])"
| "strIncludes (c # cs) pat = (take (length pat) (c # cs) = pat \<or> strIncludes cs pat)"

fun showNat :: "nat \<Rightarrow> string" where
  "showNat n =
     (if n < 10 then [char_of (48 + n)]
      else showNat (n div 10) @ [char_of (48 + n mod 10)])"

declare showNat.simps [simp del]

definition handleMessage ::
  "(string \<Rightarrow> rat) \<Rightarrow> string \<Rightarrow> nat \<Rightarrow> int \<Rightarrow> int \<Rightarrow> message \<Rightarrow> hookState \<Rightarrow> hookState"
where
  "handleMessage pf symbol depth t1 t2 msg st =
     (if paused st then st
      else case topic msg of
        None \<Rightarrow> st
      | Some tp \<Rightarrow>
          if tp = [] then st
          else if strIncludes tp symbol
            then if strIncludes tp (''orderbook.'' @ showNat depth @ ''.'')
              then if mtype msg = Some ''snapshot''
                then st\<lparr>orderBook := applySnapshot t1 t2 (mdata msg), isLoading := False\<rparr>
                else if mtype msg = Some ''delta''
                  then st\<lparr>orderBook := applyDelta pf depth t1 t2 (mdata msg) (orderBook st)\<rparr>
                  else st
              else st
            else st)"

text \<open>Messages in arrival order, each with the two clock readings of its handler.\<close>

definition handleMessages ::
  "(string \<Rightarrow> rat) \<Rightarrow> string \<Rightarrow> nat \<Rightarrow> (int \<times> int \<times> message) list \<Rightarrow> hookState \<Rightarrow> hookState"
where
  "handleMessages pf symbol depth evs st =
     foldl (\<lambda>s ev. case ev of (t1, t2, msg) \<Rightarrow> handleMessage pf symbol depth t1 t2 msg s) st evs"

subsection \<open>useOrderBookAuto: applyDelta\<close>

text \<open>
  The depth of the selected source is \<open>depths[manualSource]\<close>, \<open>undefined\<close> for a
  source outside the table; \<open>slice(0, undefined)\<close> keeps the whole array. Besides the
  new book the function may call \<open>setCurrentPrice\<close>; the second component of the result
  is the price it sets, if it does.
\<close>

definition depths :: "string \<Rightarrow> nat option" where
  "depths src =
     (if src = ''L50'' then Some 50
      else if src = ''L200'' then Some 200
      else if src = ''L1000'' then Some 1000
      else None)"

definition slice0 :: "nat option \<Rightarrow> 'a list \<Rightarrow> 'a list" where
  "slice0 e xs = (case e of None \<Rightarrow> xs | Some n \<Rightarrow> take n xs)"

definition patchSideAuto ::
  "(string \<Rightarrow> rat) \<Rightarrow> (level \<Rightarrow> level \<Rightarrow> rat) \<Rightarrow> nat option \<Rightarrow> level list option \<Rightarrow> level list \<Rightarrow> level list"
where
  "patchSideAuto pf cmp sdepth upd cur =
     (case upd of
        None \<Rightarrow> cur
      | Some es \<Rightarrow>
          if length es > 0
          then slice0 sdepth (sortBy cmp (foldl (applyEntry pf) (newMap cur) es))
          else cur)"

definition applyDeltaAuto ::
  "(string \<Rightarrow> rat) \<Rightarrow> string \<Rightarrow> int \<Rightarrow> int \<Rightarrow> bookData \<Rightarrow> book \<Rightarrow> book \<times> rat option"
where
  "applyDeltaAuto pf manualSource t1 t2 d currentBook =
     (let uid = orOpt (data_u d) (updateId currentBook) in
      if uid = Some 1
      then (\<lparr>bids = orEmpty (data_b d),
             asks = orEmpty (data_a d),
             timestamp = Some (orNum (data_ts d) t1),
             updateId = uid,
             lastUpdate = Some t2\<rparr>, None)
      else
        let newBook = currentBook
             \<lparr>bids := patchSideAuto pf (cmpDesc pf) (depths manualSource) (data_b d) (bids currentBook),
              asks := patchSideAuto pf (cmpAsc pf) (depths manualSource) (data_a d) (asks currentBook),
              timestamp := Some (orNum (data_ts d) t1),
              updateId := uid,
              lastUpdate := Some t2\<rparr>
        in (newBook,
            case bids newBook of [] \<Rightarrow> None | l # _ \<Rightarrow> Some (pf (fst l))))"


section \<open>The proxy (class BybitProxy)\<close>

subsection \<open>State\<close>

text \<open>
  A socket is its \<open>readyState\<close> and the messages handed to \<open>send\<close>, in order. What the
  proxy sends upstream is \<open>{op, args}\<close> or the heartbeat; what it sends to a client is
  the pong, an upstream message as it came (\<open>JSON.stringify\<close> of the parsed object), or
  the subscription acknowledgment.
\<close>

datatype readyState = CONNECTING | OPEN | CLOSING | CLOSED

datatype upstreamMsg = Subscribe "string list" | Unsubscribe "string list" | Ping

datatype downstreamMsg = Pong int | Data message | Subscribed "string list" nat

record upstream =
  upState :: readyState
  upSent :: "upstreamMsg list"

record client =
  readyState :: readyState
  outbox :: "downstreamMsg list"

text \<open>
  \<open>subscribedSymbols\<close> is a JavaScript \<open>Set\<close> of the keys \<open>symbol-depth\<close> and
  \<open>snapshotCache\<close> a \<open>Map\<close> from such keys to messages; both keep insertion order.
  \<open>bybitWs\<close> and \<open>clientWss\<close> are \<open>null\<close> until \<open>connectToBybit\<close> and
  \<open>initializeServer\<close> run. The two timers hold no data and are left out.
\<close>

record proxy =
  bybitWs :: "upstream option"
  clientWss :: "client list option"
  subscribedSymbols :: "string list"
  snapshotCache :: "(string \<times> message) list"

text \<open>The fields of a parsed client message that \<open>handleClientMessage\<close> reads.\<close>

record clientData =
  cd_type :: "string option"
  cd_action :: "string option"
  cd_symbols :: "string list option"
  cd_depth :: "nat option"

definition newProxy :: proxy where
  "newProxy = \<lparr>bybitWs = None, clientWss = None, subscribedSymbols = [], snapshotCache = []\<rparr>"

definition setHas :: "'a list \<Rightarrow> 'a \<Rightarrow> bool" where
  "setHas s x = (x \<in> set s)"

definition setAdd :: "'a \<Rightarrow> 'a list \<Rightarrow> 'a list" where
  "setAdd x s = (if x \<in> set s then s else s @ [x])"

definition setDelete :: "'a \<Rightarrow> 'a list \<Rightarrow> 'a list" where
  "setDelete x s = filter (\<lambda>y. y \<noteq> x) s"

text \<open>The template strings \<open>`${symbol}-${depth}`\<close> and \<open>`orderbook.${depth}.${symbol}`\<close>.\<close>

definition subKey :: "string \<Rightarrow> string \<Rightarrow> string" where
  "subKey symbol depth = symbol @ ''-'' @ depth"

definition channel :: "string \<Rightarrow> string \<Rightarrow> string" where
  "channel symbol depth = ''orderbook.'' @ depth @ ''.'' @ symbol"

subsection \<open>Upstream connection\<close>

definition subscribeToSymbols :: "string list \<Rightarrow> nat \<Rightarrow> proxy \<Rightarrow> proxy" where
  "subscribeToSymbols symbols depth st =
     (case bybitWs st of
        None \<Rightarrow> st
      | Some ws \<Rightarrow>
          if upState ws \<noteq> OPEN then st
          else
            let newSymbols =
                  filter (\<lambda>symbol. \<not> setHas (subscribedSymbols st) (subKey symbol (showNat depth)))
                    symbols
            in if length newSymbols = 0 then st
               else
                 let args = map (\<lambda>symbol. channel symbol (showNat depth)) newSymbols
                 in st\<lparr>bybitWs := Some (ws\<lparr>upSent := upSent ws @ [Subscribe args]\<rparr>),
                       subscribedSymbols :=
                         foldl (\<lambda>s symbol. setAdd (subKey symbol (showNat depth)) s)
                           (subscribedSymbols st) newSymbols\<rparr>)"

definition unsubscribeFromSymbols :: "string list \<Rightarrow> nat \<Rightarrow> proxy \<Rightarrow> proxy" where
  "unsubscribeFromSymbols symbols depth st =
     (case bybitWs st of
        None \<Rightarrow> st
      | Some ws \<Rightarrow>
          if upState ws \<noteq> OPEN then st
          else
            let subscribed =
                  filter (\<lambda>symbol. setHas (subscribedSymbols st) (subKey symbol (showNat depth)))
                    symbols
            in if length subscribed = 0 then st
               else
                 let args = map (\<lambda>symbol. channel symbol (showNat depth)) subscribed
                 in st\<lparr>bybitWs := Some (ws\<lparr>upSent := upSent ws @ [Unsubscribe args]\<rparr>),
                       subscribedSymbols :=
                         foldl (\<lambda>s symbol. setDelete (subKey symbol (showNat depth)) s)
                           (subscribedSymbols st) subscribed\<rparr>)"

text \<open>
  \<open>connectToBybit\<close> drops the old socket and creates a new one, which is connecting.
  \<open>bybitOpen\<close> is the handler it registers for \<open>open\<close>, run once the socket is open:
  it calls \<open>subscribeToSymbols\<close> with the elements of the set and no depth, so the
  parameter takes its default \<open>50\<close>.
\<close>

definition connectToBybit :: "proxy \<Rightarrow> proxy" where
  "connectToBybit st = st\<lparr>bybitWs := Some \<lparr>upState = CONNECTING, upSent = []\<rparr>\<rparr>"

definition bybitOpen :: "proxy \<Rightarrow> proxy" where
  "bybitOpen st =
     (let st1 = st\<lparr>bybitWs := map_option (\<lambda>ws. ws\<lparr>upState := OPEN\<rparr>) (bybitWs st)\<rparr>
      in if length (subscribedSymbols st1) > 0
         then subscribeToSymbols (subscribedSymbols st1) 50 st1
         else st1)"

subsection \<open>Downstream clients\<close>

text \<open>
  A client is addressed by its position in \<open>clientWss.clients\<close>. \<open>send\<close> on a socket
  that is not open delivers nothing.
\<close>

definition wsSend :: "nat \<Rightarrow> downstreamMsg \<Rightarrow> proxy \<Rightarrow> proxy" where
  "wsSend i msg st =
     (case clientWss st of
        None \<Rightarrow> st
      | Some cs \<Rightarrow>
          if i < length cs
          then if readyState (cs ! i) = OPEN
            then st\<lparr>clientWss := Some (cs[i := (cs ! i)\<lparr>outbox := outbox (cs ! i) @ [msg]\<rparr>])\<rparr>
            else st
          else st)"

text \<open>\<open>depth || 50\<close> on the depth of a client message.\<close>

definition orNat :: "nat option \<Rightarrow> nat \<Rightarrow> nat" where
  "orNat v d = (case v of None \<Rightarrow> d | Some n \<Rightarrow> if n = 0 then d else n)"

definition sendCached :: "nat \<Rightarrow> nat \<Rightarrow> proxy \<Rightarrow> string \<Rightarrow> proxy" where
  "sendCached i orderDepth st symbol =
     (case mapGet (snapshotCache st) (subKey symbol (showNat orderDepth)) of
        None \<Rightarrow> st
      | Some cachedSnapshot \<Rightarrow> wsSend i (Data cachedSnapshot) st)"

definition handleClientMessage :: "nat \<Rightarrow> int \<Rightarrow> clientData \<Rightarrow> proxy \<Rightarrow> proxy" where
  "handleClientMessage i now cdata st =
     (if cd_type cdata = Some ''ping'' then wsSend i (Pong now) st
      else
        let orderDepth = orNat (cd_depth cdata) 50;
            st1 = (case cd_symbols cdata of
                     None \<Rightarrow> st
                   | Some symbols \<Rightarrow>
                       if cd_action cdata = Some ''subscribe''
                       then wsSend i (Subscribed symbols orderDepth)
                              (foldl (sendCached i orderDepth)
                                 (subscribeToSymbols symbols orderDepth st) symbols)
                       else st)
        in case cd_symbols cdata of
             None \<Rightarrow> st1
           | Some symbols \<Rightarrow>
               if cd_action cdata = Some ''unsubscribe''
               then unsubscribeFromSymbols symbols orderDepth st1
               else st1)"

definition deliver :: "message \<Rightarrow> client \<Rightarrow> client" where
  "deliver m c = (if readyState c = OPEN then c\<lparr>outbox := outbox c @ [Data m]\<rparr> else c)"

definition broadcast :: "message \<Rightarrow> proxy \<Rightarrow> proxy" where
  "broadcast m st =
     (case clientWss st of
        None \<Rightarrow> st
      | Some cs \<Rightarrow> st\<lparr>clientWss := Some (map (deliver m) cs)\<rparr>)"

text \<open>\<open>startsWith\<close>, \<open>split\<close>, and an element of the split read into a template
  (\<open>undefined\<close> prints as the word).\<close>

definition startsWith :: "string \<Rightarrow> string \<Rightarrow> bool" where
  "startsWith s p = (take (length p) s = p)"

fun splitOn :: "char \<Rightarrow> string \<Rightarrow> string list" where
  "splitOn sep [] = [[]]"
| "splitOn sep (c # cs) =
     (if c = sep then [] # splitOn sep cs
      else case splitOn sep cs of [] \<Rightarrow> [[c]] | p # ps \<Rightarrow> (c # p) # ps)"

definition part :: "string list \<Rightarrow> nat \<Rightarrow> string" where
  "part ps i = (if i < length ps then ps ! i else ''undefined'')"

definition handleBybitMessage :: "message \<Rightarrow> proxy \<Rightarrow> proxy" where
  "handleBybitMessage m st =
     (if msg_op m = Some ''pong'' then st
      else if msg_op m = Some ''subscribe'' then st
      else case topic m of
        None \<Rightarrow> st
      | Some tp \<Rightarrow>
          if startsWith tp ''orderbook''
          then
            let parts = splitOn (CHR ''.'') tp;
                depth = part parts 1;
                symbol = part parts 2;
                st1 = (if mtype m = Some ''snapshot''
                       then st\<lparr>snapshotCache := mapSet (subKey symbol depth) m (snapshotCache st)\<rparr>
                       else st)
            in broadcast m st1
          else st)"

section \<open>Properties\<close>

subsection \<open>Vocabulary of the statements\<close>

text \<open>One entry of a delta list seen as a \<open>set\<close> call.\<close>

definition setEntry :: "('k \<times> 'v) list \<Rightarrow> 'k \<times> 'v \<Rightarrow> ('k \<times> 'v) list" where
  "setEntry m e = mapSet (fst e) (snd e) m"

text \<open>The properties of one side of a book.\<close>

definition noZeroSize :: "(string \<Rightarrow> rat) \<Rightarrow> level list \<Rightarrow> bool" where
  "noZeroSize pf xs = list_all (\<lambda>l. pf (snd l) \<noteq> 0) xs"

definition weaklyDesc :: "(string \<Rightarrow> rat) \<Rightarrow> level list \<Rightarrow> bool" where
  "weaklyDesc pf xs = sorted_wrt (\<lambda>x y. pf (fst y) \<le> pf (fst x)) xs"

definition weaklyAsc :: "(string \<Rightarrow> rat) \<Rightarrow> level list \<Rightarrow> bool" where
  "weaklyAsc pf xs = sorted_wrt (\<lambda>x y. pf (fst x) \<le> pf (fst y)) xs"

definition strictlyDesc :: "(string \<Rightarrow> rat) \<Rightarrow> level list \<Rightarrow> bool" where
  "strictlyDesc pf xs = sorted_wrt (\<lambda>x y. pf (fst y) < pf (fst x)) xs"

definition strictlyAsc :: "(string \<Rightarrow> rat) \<Rightarrow> level list \<Rightarrow> bool" where
  "strictlyAsc pf xs = sorted_wrt (\<lambda>x y. pf (fst x) < pf (fst y)) xs"

definition bidsOk :: "(string \<Rightarrow> rat) \<Rightarrow> nat \<Rightarrow> level list \<Rightarrow> bool" where
  "bidsOk pf depth xs =
     (noZeroSize pf xs \<and> length xs \<le> depth \<and> weaklyDesc pf xs \<and> distinct (map fst xs))"

definition asksOk :: "(string \<Rightarrow> rat) \<Rightarrow> nat \<Rightarrow> level list \<Rightarrow> bool" where
  "asksOk pf depth xs =
     (noZeroSize pf xs \<and> length xs \<le> depth \<and> weaklyAsc pf xs \<and> distinct (map fst xs))"

definition bookOk :: "(string \<Rightarrow> rat) \<Rightarrow> nat \<Rightarrow> book \<Rightarrow> bool" where
  "bookOk pf depth bk = (bidsOk pf depth (bids bk) \<and> asksOk pf depth (asks bk))"

definition dataOk :: "(string \<Rightarrow> rat) \<Rightarrow> nat \<Rightarrow> bookData \<Rightarrow> bool" where
  "dataOk pf depth d =
     (bidsOk pf depth (orEmpty (data_b d)) \<and> asksOk pf depth (orEmpty (data_a d)))"

text \<open>
  A message whose lists the hook may store as they are: a snapshot, or a delta that can
  take the restart branch (update id 1, or a falsy one, which falls back to the book's).
\<close>

definition storedVerbatim :: "message \<Rightarrow> bool" where
  "storedVerbatim m =
     (if mtype m = Some ''snapshot'' then True
      else if truthy (data_u (mdata m)) then data_u (mdata m) = Some 1
      else True)"

text \<open>A message that passes the hook's topic guard.\<close>

definition forHook :: "string \<Rightarrow> nat \<Rightarrow> message \<Rightarrow> bool" where
  "forHook symbol depth m =
     (case topic m of
        None \<Rightarrow> False
      | Some tp \<Rightarrow> tp \<noteq> [] \<and> strIncludes tp symbol
                   \<and> strIncludes tp (''orderbook.'' @ showNat depth @ ''.''))"

text \<open>An upstream order-book data message, and the cache key of its topic.\<close>

definition orderbookData :: "message \<Rightarrow> bool" where
  "orderbookData m =
     (msg_op m \<noteq> Some ''pong'' \<and> msg_op m \<noteq> Some ''subscribe''
      \<and> (case topic m of None \<Rightarrow> False | Some tp \<Rightarrow> startsWith tp ''orderbook''))"

definition cacheKey :: "message \<Rightarrow> string" where
  "cacheKey m =
     (let parts = splitOn (CHR ''.'') (orEmpty (topic m))
      in subKey (part parts 2) (part parts 1))"

definition outboxOf :: "proxy \<Rightarrow> nat \<Rightarrow> downstreamMsg list" where
  "outboxOf st i =
     (case clientWss st of
        None \<Rightarrow> []
      | Some cs \<Rightarrow> if i < length cs then outbox (cs ! i) else [])"

definition clientOpen :: "proxy \<Rightarrow> nat \<Rightarrow> bool" where
  "clientOpen st i =
     (case clientWss st of
        None \<Rightarrow> False
      | Some cs \<Rightarrow> i < length cs \<and> readyState (cs ! i) = OPEN)"

definition cachedFor :: "proxy \<Rightarrow> nat \<Rightarrow> string list \<Rightarrow> downstreamMsg list" where
  "cachedFor st orderDepth symbols =
     concat (map (\<lambda>symbol.
        case mapGet (snapshotCache st) (subKey symbol (showNat orderDepth)) of
          None \<Rightarrow> []
        | Some c \<Rightarrow> [Data c]) symbols)"

text \<open>The messages of the specification's scenario, on the topic of a depth-50 book.\<close>

definition scenarioSnapshot :: message where
  "scenarioSnapshot =
     \<lparr>msg_op = None, topic = Some ''orderbook.50.BTCUSDT'', mtype = Some ''snapshot'',
      mdata = \<lparr>data_b = Some [(''100'', ''5'')], data_a = Some [(''101'', ''3'')],
               data_u = Some 10, data_ts = None\<rparr>\<rparr>"

definition scenarioDelta :: message where
  "scenarioDelta =
     \<lparr>msg_op = None, topic = Some ''orderbook.50.BTCUSDT'', mtype = Some ''delta'',
      mdata = \<lparr>data_b = Some [(''100'', ''0''), (''99'', ''2'')], data_a = None,
               data_u = Some 11, data_ts = None\<rparr>\<rparr>"

text \<open>
  A proxy with one open client that has connected upstream and served one client
  request: subscribe to BTCUSDT at depth 200.
\<close>

definition subscribedOnce :: proxy where
  "subscribedOnce =
     handleClientMessage 0 7
       \<lparr>cd_type = None, cd_action = Some ''subscribe'', cd_symbols = Some [''BTCUSDT''],
        cd_depth = Some 200\<rparr>
       (bybitOpen (connectToBybit
          (newProxy\<lparr>clientWss := Some [\<lparr>readyState = OPEN, outbox = []\<rparr>]\<rparr>)))"

text \<open>The same proxy after the upstream snapshot of the scenario has arrived.\<close>

definition cachedOnce :: proxy where
  "cachedOnce = handleBybitMessage scenarioSnapshot subscribedOnce"

subsection \<open>The insertion-ordered map\<close>

lemma keys_mapSet:
  "map fst (mapSet k v m) = (if k \<in> fst ` set m then map fst m else map fst m @ [k])"
  by (induction m) (force+)

lemma set_mapSet_subset: "set (mapSet k v m) \<subseteq> insert (k, v) (set m)"
  by (induction m) (auto split: if_splits)

lemma distinct_mapSet: "distinct (map fst m) \<Longrightarrow> distinct (map fst (mapSet k v m))"
  by (simp add: keys_mapSet)

lemma map_of_mapSet: "map_of (mapSet k v m) = (map_of m)(k \<mapsto> v)"
  by (induction m) (auto simp: fun_eq_iff)

lemma mapSet_fresh: "k \<notin> fst ` set m \<Longrightarrow> mapSet k v m = m @ [(k, v)]"
  by (induction m) auto

lemma mapDelete_filter:
  "distinct (map fst m) \<Longrightarrow> mapDelete k m = filter (\<lambda>e. fst e \<noteq> k) m"
proof (induction m)
  case Nil
  then show ?case by simp
next
  case (Cons e m)
  obtain k' v' where e: "e = (k', v')" by (cases e)
  show ?case
  proof (cases "k' = k")
    case True
    with Cons.prems e have "\<forall>x \<in> set m. fst x \<noteq> k" by auto
    then have "filter (\<lambda>e. fst e \<noteq> k) m = m" by (simp add: filter_id_conv)
    with True e show ?thesis by simp
  next
    case False
    with Cons e show ?thesis by simp
  qed
qed

lemma set_mapDelete_subset: "set (mapDelete k m) \<subseteq> set m"
  by (induction m) (auto split: if_splits)

lemma keys_mapDelete_subset: "fst ` set (mapDelete k m) \<subseteq> fst ` set m"
  using set_mapDelete_subset by fast

lemma distinct_mapDelete: "distinct (map fst m) \<Longrightarrow> distinct (map fst (mapDelete k m))"
  by (simp add: mapDelete_filter distinct_map_filter)

lemma newMap_setEntry: "newMap ps = foldl setEntry [] ps"
  by (simp add: newMap_def setEntry_def [abs_def] case_prod_unfold)

lemma distinct_foldl_setEntry:
  "distinct (map fst m) \<Longrightarrow> distinct (map fst (foldl setEntry m es))"
  by (induction es arbitrary: m) (simp_all add: setEntry_def distinct_mapSet)

lemma set_foldl_setEntry_subset: "set (foldl setEntry m es) \<subseteq> set m \<union> set es"
proof (induction es arbitrary: m)
  case Nil
  then show ?case by simp
next
  case (Cons e es)
  have "set (setEntry m e) \<subseteq> insert e (set m)"
    using set_mapSet_subset [of "fst e" "snd e" m] by (simp add: setEntry_def)
  with Cons.IH [of "setEntry m e"] show ?case by auto
qed

lemma foldl_setEntry_fresh:
  "distinct (map fst (m @ es)) \<Longrightarrow> foldl setEntry m es = m @ es"
proof (induction es arbitrary: m)
  case Nil
  then show ?case by simp
next
  case (Cons e es)
  from Cons.prems have "fst e \<notin> fst ` set m" by auto
  then have "setEntry m e = m @ [e]" by (simp add: setEntry_def mapSet_fresh)
  moreover from Cons.prems have "distinct (map fst ((m @ [e]) @ es))" by simp
  ultimately show ?case using Cons.IH [of "m @ [e]"] by simp
qed

lemma distinct_newMap: "distinct (map fst (newMap ps))"
  by (simp add: newMap_setEntry distinct_foldl_setEntry)

lemma set_newMap_subset: "set (newMap ps) \<subseteq> set ps"
  using set_foldl_setEntry_subset [of "[]" ps] by (simp add: newMap_setEntry)

lemma newMap_id: "distinct (map fst ps) \<Longrightarrow> newMap ps = ps"
  using foldl_setEntry_fresh [of "[]" ps] by (simp add: newMap_setEntry)

lemma map_of_foldl_setEntry:
  "map_of (foldl setEntry m es) = map_of m ++ map_of (rev es)"
proof (induction es arbitrary: m)
  case Nil
  then show ?case by simp
next
  case (Cons e es)
  have "map_of (setEntry m e) = (map_of m)(fst e \<mapsto> snd e)"
    by (simp add: setEntry_def map_of_mapSet)
  then show ?case using Cons.IH [of "setEntry m e"]
    by (cases e) (simp add: map_add_upd_left fun_eq_iff map_add_def split: option.splits)
qed

lemma keys_foldl_setEntry:
  "\<exists>ys. map fst (foldl setEntry m es) = map fst m @ ys
        \<and> set ys = fst ` set es - fst ` set m"
proof (induction es arbitrary: m)
  case Nil
  then show ?case by simp
next
  case (Cons e es)
  obtain ys where ys: "map fst (foldl setEntry (setEntry m e) es) = map fst (setEntry m e) @ ys"
    "set ys = fst ` set es - fst ` set (setEntry m e)"
    using Cons.IH [of "setEntry m e"] by blast
  show ?case
  proof (cases "fst e \<in> fst ` set m")
    case True
    then have "map fst (setEntry m e) = map fst m" by (simp add: setEntry_def keys_mapSet)
    moreover from this have "fst ` set (setEntry m e) = fst ` set m"
      by (metis list.set_map)
    ultimately show ?thesis using ys True by auto
  next
    case False
    then have k: "map fst (setEntry m e) = map fst m @ [fst e]" by (simp add: setEntry_def keys_mapSet)
    then have "fst ` set (setEntry m e) = insert (fst e) (fst ` set m)"
      by (metis list.set_map set_append list.set(1,2) Un_insert_right sup_bot.right_neutral)
    with ys k False show ?thesis by auto
  qed
qed

lemma same_key_same_entry:
  "distinct (map fst m) \<Longrightarrow> e \<in> set m \<Longrightarrow> e' \<in> set m \<Longrightarrow> fst e = fst e' \<Longrightarrow> e = e'"
  by (metis distinct_map inj_onD)

lemma applyEntry_cases:
  "applyEntry pf m e = (if pf (snd e) = 0 then mapDelete (fst e) m else setEntry m e)"
  by (cases e) (simp add: applyEntry_def setEntry_def)

lemma distinct_foldl_applyEntry:
  "distinct (map fst m) \<Longrightarrow> distinct (map fst (foldl (applyEntry pf) m es))"
  by (induction es arbitrary: m)
     (simp_all add: applyEntry_cases setEntry_def distinct_mapSet distinct_mapDelete)

lemma set_foldl_applyEntry_subset:
  "set (foldl (applyEntry pf) m es) \<subseteq> set m \<union> {e \<in> set es. pf (snd e) \<noteq> 0}"
proof (induction es arbitrary: m)
  case Nil
  then show ?case by simp
next
  case (Cons e es)
  have "set (applyEntry pf m e) \<subseteq> set m \<union> {x. x = e \<and> pf (snd e) \<noteq> 0}"
    using set_mapSet_subset [of "fst e" "snd e" m] set_mapDelete_subset [of "fst e" m]
    by (auto simp: applyEntry_cases setEntry_def)
  with Cons.IH [of "applyEntry pf m e"] show ?case by auto
qed

lemma foldl_applyEntry_nonzero:
  "\<forall>e \<in> set es. pf (snd e) \<noteq> 0 \<Longrightarrow> foldl (applyEntry pf) m es = foldl setEntry m es"
  by (induction es arbitrary: m) (simp_all add: applyEntry_cases)

lemma eq_by_keys:
  "map fst xs = map fst ys \<Longrightarrow> (\<forall>e \<in> set xs. \<forall>e' \<in> set ys. fst e = fst e' \<longrightarrow> e = e')
     \<Longrightarrow> xs = ys"
proof (induction xs arbitrary: ys)
  case Nil
  then show ?case by simp
next
  case (Cons x xs)
  then obtain y ys' where ys: "ys = y # ys'" by (cases ys) auto
  with Cons.prems have "x = y" by auto
  moreover from Cons.prems ys have "xs = ys'" by (intro Cons.IH) auto
  ultimately show ?case using ys by simp
qed

subsection \<open>The comparator sort\<close>

lemma insertBy_insort:
  assumes "\<And>x y. (cmp x y \<le> 0) = (f x \<le> f y)"
  shows "insertBy cmp x ys = insort_key f x ys"
  by (induction ys) (simp_all add: assms)

lemma sortBy_sort_key:
  assumes "\<And>x y. (cmp x y \<le> 0) = (f x \<le> (f y :: rat))"
  shows "sortBy cmp xs = sort_key f xs"
  by (induction xs) (simp_all add: sortBy_def insertBy_insort [OF assms])

lemma cmpDesc_key: "(cmpDesc pf x y \<le> 0) = (- pf (fst x) \<le> - pf (fst y))"
  by (simp add: cmpDesc_def)

lemma cmpAsc_key: "(cmpAsc pf x y \<le> 0) = (pf (fst x) \<le> pf (fst y))"
  by (simp add: cmpAsc_def)

lemma sort_key_append_sorted:
  "sorted (map f xs) \<Longrightarrow> \<forall>x \<in> set xs. \<forall>y \<in> set ys. f x \<le> f y
     \<Longrightarrow> sort_key f (xs @ ys) = xs @ sort_key f ys"
proof (induction xs)
  case Nil
  then show ?case by simp
next
  case (Cons x xs)
  then have "sort_key f (xs @ ys) = xs @ sort_key f ys" by simp
  moreover have "\<forall>z \<in> set (xs @ sort_key f ys). f x \<le> f z"
    using Cons.prems by auto
  ultimately show ?case by (simp add: insort_is_Cons)
qed

lemma distinct_keys_sort_key:
  "distinct (map fst (sort_key f m)) = distinct (map fst m)"
  by (simp add: distinct_map)

lemma sorted_take_map: "sorted (map f xs) \<Longrightarrow> sorted (map f (take n xs))"
  by (metis sorted_wrt_take take_map)

subsection \<open>Applying the same upserts twice\<close>

lemma upsert_twice:
  fixes f :: "level \<Rightarrow> rat"
  shows "take depth (sort_key f (foldl setEntry
            (newMap (take depth (sort_key f (foldl setEntry (newMap cur) es)))) es))
         = take depth (sort_key f (foldl setEntry (newMap cur) es))"
proof -
  define M1 where "M1 = foldl setEntry (newMap cur) es"
  define R where "R = take depth (sort_key f M1)"
  define L1 where "L1 = sort_key f M1"
  define M2 where "M2 = foldl setEntry R es"
  have R: "R = take depth L1" by (simp add: R_def L1_def)
  have dM1: "distinct (map fst M1)"
    by (simp add: M1_def distinct_foldl_setEntry distinct_newMap)
  have dL1: "distinct (map fst L1)" by (simp add: L1_def distinct_keys_sort_key dM1)
  have dR: "distinct (map fst R)" unfolding R using dL1 by (simp add: take_map [symmetric])
  have setL1: "set L1 = set M1" by (simp add: L1_def)
  have RsubM1: "set R \<subseteq> set M1" unfolding R using setL1 set_take_subset by fast
  have newR: "newMap R = R" by (rule newMap_id [OF dR])
  have dM2: "distinct (map fst M2)" by (simp add: M2_def distinct_foldl_setEntry dR)
  have mM1: "map_of M1 = map_of (newMap cur) ++ map_of (rev es)"
    by (simp add: M1_def map_of_foldl_setEntry)
  have mM2: "map_of M2 = map_of R ++ map_of (rev es)"
    by (simp add: M2_def map_of_foldl_setEntry)
  have M2subM1: "set M2 \<subseteq> set M1"
  proof
    fix e assume e: "e \<in> set M2"
    obtain k v where kv: "e = (k, v)" by (cases e)
    from e kv dM2 have m2: "map_of M2 k = Some v" by simp
    show "e \<in> set M1"
    proof (cases "map_of (rev es) k")
      case None
      with m2 mM2 have "map_of R k = Some v" by (simp add: map_add_def)
      then have "(k, v) \<in> set R" by (rule map_of_SomeD)
      with RsubM1 kv show ?thesis by auto
    next
      case (Some v')
      with m2 mM2 have "v' = v" by (simp add: map_add_def)
      with Some mM1 have "map_of M1 k = Some v" by (simp add: map_add_def)
      then have "(k, v) \<in> set M1" by (rule map_of_SomeD)
      with kv show ?thesis by simp
    qed
  qed
  obtain ys where ys: "map fst M2 = map fst R @ ys" "set ys = fst ` set es - fst ` set R"
    using keys_foldl_setEntry [of R es] unfolding M2_def by blast
  define A where "A = take (length R) M2"
  define X where "X = drop (length R) M2"
  have M2: "M2 = A @ X" by (simp add: A_def X_def)
  have kA: "map fst A = map fst R"
    using ys(1) by (simp add: A_def take_map [symmetric])
  have kX: "map fst X = ys"
    using ys(1) by (simp add: X_def drop_map [symmetric])
  have "A = R"
  proof (rule eq_by_keys [OF kA], intro ballI impI)
    fix e e' assume "e \<in> set A" "e' \<in> set R" "fst e = fst e'"
    moreover from this M2 M2subM1 have "e \<in> set M1" by auto
    ultimately show "e = e'" using RsubM1 dM1 same_key_same_entry by fast
  qed
  have Xdrop: "set X \<subseteq> set (drop depth L1)"
  proof
    fix x assume x: "x \<in> set X"
    then have "fst x \<in> set ys" using kX by (metis image_eqI list.set_map)
    with ys(2) have "fst x \<notin> fst ` set R" by simp
    then have "x \<notin> set (take depth L1)" unfolding R by auto
    moreover from x M2 M2subM1 setL1 have "x \<in> set L1" by auto
    moreover have "set L1 = set (take depth L1) \<union> set (drop depth L1)"
      by (metis append_take_drop_id set_append)
    ultimately show "x \<in> set (drop depth L1)" by simp
  qed
  have sL1: "sorted (map f L1)" by (simp add: L1_def)
  have sR: "sorted (map f R)" unfolding R by (rule sorted_take_map [OF sL1])
  have "sorted (map f (take depth L1) @ map f (drop depth L1))"
    using sL1 by (metis append_take_drop_id map_append)
  then have le: "\<forall>r \<in> set R. \<forall>x \<in> set X. f r \<le> f x"
    unfolding R using Xdrop by (auto simp: sorted_append)
  have "sort_key f M2 = R @ sort_key f X"
    unfolding M2 \<open>A = R\<close> by (rule sort_key_append_sorted [OF sR le])
  moreover have "take depth (R @ sort_key f X) = R"
  proof (cases "X = []")
    case True
    then show ?thesis by (simp add: R)
  next
    case False
    then obtain x where "x \<in> set X" by (cases X) auto
    with Xdrop have "drop depth L1 \<noteq> []" by auto
    then have "length R = depth" by (simp add: R)
    then show ?thesis by simp
  qed
  ultimately have "take depth (sort_key f (foldl setEntry (newMap R) es)) = R"
    by (simp add: newR M2_def)
  then show ?thesis by (simp add: R_def M1_def)
qed

lemma upsert_sizes:
  assumes "\<forall>e \<in> set es. pf (snd e) \<noteq> 0"
    and "l \<in> set (take depth (sort_key f (foldl setEntry (newMap cur) es)))"
    and "fst l \<in> fst ` set es"
  shows "l \<in> set es"
proof -
  define M1 where "M1 = foldl setEntry (newMap cur) es"
  have dM1: "distinct (map fst M1)"
    by (simp add: M1_def distinct_foldl_setEntry distinct_newMap)
  from assms(2) have "l \<in> set M1"
    unfolding M1_def using set_take_subset by fastforce
  with dM1 have m: "map_of M1 (fst l) = Some (snd l)" by simp
  from assms(3) obtain v where v: "map_of (rev es) (fst l) = Some v"
    by (metis domD dom_map_of_conv_image_fst set_rev)
  have "map_of M1 = map_of (newMap cur) ++ map_of (rev es)"
    by (simp add: M1_def map_of_foldl_setEntry)
  with v m have "v = snd l" by (simp add: map_add_def)
  with v have "(fst l, snd l) \<in> set (rev es)" by (auto dest: map_of_SomeD)
  then show ?thesis by simp
qed

lemma keys_foldl_setEntry_set:
  "fst ` set (foldl setEntry m es) = fst ` set m \<union> fst ` set es"
proof -
  obtain ys where ys: "map fst (foldl setEntry m es) = map fst m @ ys"
    "set ys = fst ` set es - fst ` set m"
    using keys_foldl_setEntry [of m es] by blast
  have "fst ` set (foldl setEntry m es) = set (map fst (foldl setEntry m es))" by simp
  also have "\<dots> = fst ` set m \<union> set ys" unfolding ys(1) by simp
  finally show ?thesis using ys(2) by auto
qed

lemma upsert_last_size:
  assumes "map_of (rev es) p = Some s"
  shows "(p, s) \<in> set (foldl setEntry (newMap cur) es)"
proof -
  have "map_of (foldl setEntry (newMap cur) es) p = Some s"
    using assms by (simp add: map_of_foldl_setEntry map_add_def)
  then show ?thesis by (rule map_of_SomeD)
qed

lemma upsert_present:
  fixes f :: "level \<Rightarrow> rat"
  assumes "map_of (rev es) p = Some s"
  shows "(p, s) \<in> set (take depth (sort_key f (foldl setEntry (newMap cur) es)))
       \<or> (length (take depth (sort_key f (foldl setEntry (newMap cur) es))) = depth
          \<and> p \<notin> fst ` set (take depth (sort_key f (foldl setEntry (newMap cur) es))))"
proof -
  define L where "L = sort_key f (foldl setEntry (newMap cur) es)"
  have dL: "distinct (map fst L)"
    by (simp add: L_def distinct_keys_sort_key distinct_foldl_setEntry distinct_newMap)
  have inL: "(p, s) \<in> set L"
    using upsert_last_size [OF assms, of cur] by (simp add: L_def)
  have split: "set L = set (take depth L) \<union> set (drop depth L)"
    by (metis append_take_drop_id set_append)
  show ?thesis
  proof (cases "(p, s) \<in> set (take depth L)")
    case True
    then show ?thesis by (simp add: L_def)
  next
    case False
    with inL split have "(p, s) \<in> set (drop depth L)" by simp
    then have "drop depth L \<noteq> []" by auto
    then have len: "length (take depth L) = depth" by simp
    have "p \<notin> fst ` set (take depth L)"
    proof
      assume "p \<in> fst ` set (take depth L)"
      then obtain e where e: "e \<in> set (take depth L)" "fst e = p" by auto
      with split have "e \<in> set L" by simp
      with dL inL e(2) have "e = (p, s)"
        using same_key_same_entry [of L e "(p, s)"] by simp
      with e(1) False show False by simp
    qed
    with len show ?thesis by (simp add: L_def)
  qed
qed

lemma upsert_no_trim:
  fixes f :: "level \<Rightarrow> rat"
  assumes "card (fst ` set cur \<union> fst ` set es) \<le> depth" and "map_of (rev es) p = Some s"
  shows "(p, s) \<in> set (take depth (sort_key f (foldl setEntry (newMap cur) es)))"
proof -
  define M where "M = foldl setEntry (newMap cur) es"
  have dM: "distinct (map fst M)"
    by (simp add: M_def distinct_foldl_setEntry distinct_newMap)
  have "fst ` set (newMap cur) = fst ` set cur"
    using keys_foldl_setEntry_set [of "[]" cur] by (simp add: newMap_setEntry)
  then have "set (map fst M) = fst ` set cur \<union> fst ` set es"
    using keys_foldl_setEntry_set [of "newMap cur" es] by (simp add: M_def)
  with dM have "length M = card (fst ` set cur \<union> fst ` set es)"
    using distinct_card [of "map fst M"] by simp
  with assms(1) have "take depth (sort_key f M) = sort_key f M" by simp
  moreover have "(p, s) \<in> set M"
    using upsert_last_size [OF assms(2), of cur] by (simp add: M_def)
  ultimately show ?thesis by (simp add: M_def)
qed

subsection \<open>One side of a delta\<close>

lemma weaklyDesc_sorted: "weaklyDesc pf xs = sorted (map (\<lambda>l. - pf (fst l)) xs)"
  by (simp add: weaklyDesc_def sorted_wrt_map)

lemma weaklyAsc_sorted: "weaklyAsc pf xs = sorted (map (\<lambda>l. pf (fst l)) xs)"
  by (simp add: weaklyAsc_def sorted_wrt_map)

lemma sortBy_cmpDesc: "sortBy (cmpDesc pf) xs = sort_key (\<lambda>l. - pf (fst l)) xs"
  by (rule sortBy_sort_key) (rule cmpDesc_key)

lemma sortBy_cmpAsc: "sortBy (cmpAsc pf) xs = sort_key (\<lambda>l. pf (fst l)) xs"
  by (rule sortBy_sort_key) (rule cmpAsc_key)

lemma patchSide_unfold:
  assumes "\<And>x y. (cmp x y \<le> 0) = (f x \<le> (f y :: rat))"
  shows "patchSide pf cmp depth upd cur =
           (if orEmpty upd = [] then cur
            else take depth (sort_key f (foldl (applyEntry pf) (newMap cur) (orEmpty upd))))"
  by (simp add: patchSide_def orEmpty_def sortBy_sort_key [OF assms] split: option.splits)

lemma patchSide_twice:
  assumes key: "\<And>x y. (cmp x y \<le> 0) = (f x \<le> (f y :: rat))"
    and nz: "\<forall>e \<in> set (orEmpty upd). pf (snd e) \<noteq> 0"
  shows "patchSide pf cmp depth upd (patchSide pf cmp depth upd cur)
           = patchSide pf cmp depth upd cur"
  using upsert_twice [of depth f cur "orEmpty upd"]
  by (simp add: patchSide_unfold [OF key] foldl_applyEntry_nonzero [OF nz])

lemma patchSide_sizes:
  assumes key: "\<And>x y. (cmp x y \<le> 0) = (f x \<le> (f y :: rat))"
    and nz: "\<forall>e \<in> set (orEmpty upd). pf (snd e) \<noteq> 0"
    and l: "l \<in> set (patchSide pf cmp depth upd cur)" "fst l \<in> fst ` set (orEmpty upd)"
  shows "l \<in> set (orEmpty upd)"
proof -
  from l(2) have ne: "orEmpty upd \<noteq> []" by auto
  with l(1) have "l \<in> set (take depth (sort_key f (foldl setEntry (newMap cur) (orEmpty upd))))"
    by (simp add: patchSide_unfold [OF key] foldl_applyEntry_nonzero [OF nz])
  then show ?thesis using l(2) by (rule upsert_sizes [OF nz])
qed

lemma patchSide_ok:
  assumes key: "\<And>x y. (cmp x y \<le> 0) = (f x \<le> (f y :: rat))"
    and cur: "noZeroSize pf cur" "length cur \<le> depth" "sorted (map f cur)" "distinct (map fst cur)"
  shows "noZeroSize pf (patchSide pf cmp depth upd cur)
       \<and> length (patchSide pf cmp depth upd cur) \<le> depth
       \<and> sorted (map f (patchSide pf cmp depth upd cur))
       \<and> distinct (map fst (patchSide pf cmp depth upd cur))"
proof (cases "orEmpty upd = []")
  case True
  with cur show ?thesis by (simp add: patchSide_unfold [OF key])
next
  case False
  define M where "M = foldl (applyEntry pf) (newMap cur) (orEmpty upd)"
  have R: "patchSide pf cmp depth upd cur = take depth (sort_key f M)"
    using False by (simp add: patchSide_unfold [OF key] M_def)
  have "set M \<subseteq> set cur \<union> {e \<in> set (orEmpty upd). pf (snd e) \<noteq> 0}"
    unfolding M_def using set_foldl_applyEntry_subset [of pf "newMap cur" "orEmpty upd"]
      set_newMap_subset [of cur] by auto
  with cur(1) have "\<forall>l \<in> set M. pf (snd l) \<noteq> 0"
    by (auto simp: noZeroSize_def list_all_iff)
  moreover have "set (take depth (sort_key f M)) \<subseteq> set M"
    using set_take_subset [of depth "sort_key f M"] by simp
  ultimately have "\<forall>l \<in> set (take depth (sort_key f M)). pf (snd l) \<noteq> 0"
    by blast
  then have nz: "noZeroSize pf (take depth (sort_key f M))"
    by (simp add: noZeroSize_def list_all_iff)
  have dM: "distinct (map fst M)"
    by (simp add: M_def distinct_foldl_applyEntry distinct_newMap)
  then have "distinct (map fst (sort_key f M))" by (simp add: distinct_keys_sort_key)
  then have d: "distinct (map fst (take depth (sort_key f M)))"
    by (simp add: take_map [symmetric])
  have s: "sorted (map f (take depth (sort_key f M)))"
    by (rule sorted_take_map) simp
  show ?thesis unfolding R using nz d s by simp
qed

lemma bidsOk_patchSide:
  "bidsOk pf depth cur \<Longrightarrow> bidsOk pf depth (patchSide pf (cmpDesc pf) depth upd cur)"
  using patchSide_ok [of "cmpDesc pf" "\<lambda>l. - pf (fst l)" pf cur depth upd]
  by (simp add: bidsOk_def weaklyDesc_sorted cmpDesc_key)

lemma asksOk_patchSide:
  "asksOk pf depth cur \<Longrightarrow> asksOk pf depth (patchSide pf (cmpAsc pf) depth upd cur)"
  using patchSide_ok [of "cmpAsc pf" "\<lambda>l. pf (fst l)" pf cur depth upd]
  by (simp add: asksOk_def weaklyAsc_sorted cmpAsc_key)

lemma patchSide_delete_one:
  assumes key: "\<And>x y. (cmp x y \<le> 0) = (f x \<le> (f y :: rat))"
    and z: "pf z = 0"
    and cur: "length cur \<le> depth" "sorted (map f cur)" "distinct (map fst cur)"
  shows "patchSide pf cmp depth (Some [(price, z)]) cur = filter (\<lambda>l. fst l \<noteq> price) cur"
proof -
  have "foldl (applyEntry pf) (newMap cur) [(price, z)] = filter (\<lambda>l. fst l \<noteq> price) cur"
    using z cur(3) by (simp add: applyEntry_cases newMap_id mapDelete_filter)
  moreover have "sorted (map f (filter (\<lambda>l. fst l \<noteq> price) cur))"
    using cur(2) by (rule sorted_filter)
  moreover have "length (filter (\<lambda>l. fst l \<noteq> price) cur) \<le> depth"
    using cur(1) length_filter_le [of "\<lambda>l. fst l \<noteq> price" cur] by linarith
  ultimately show ?thesis
    by (simp add: patchSide_unfold [OF key] orEmpty_def sort_key_id_if_sorted)
qed

lemma orOpt_idem: "orOpt u (orOpt u w) = orOpt u w"
  by (simp add: orOpt_def)

lemma orOpt_sentinel: "orOpt u w = Some 1 \<Longrightarrow> orOpt u (Some 1) = Some 1"
  by (simp add: orOpt_def split: if_splits)

lemma applyDelta_twice:
  assumes nzb: "\<forall>e \<in> set (orEmpty (data_b d)). pf (snd e) \<noteq> 0"
    and nza: "\<forall>e \<in> set (orEmpty (data_a d)). pf (snd e) \<noteq> 0"
  shows "bids (applyDelta pf depth t3 t4 d (applyDelta pf depth t1 t2 d B))
           = bids (applyDelta pf depth t1 t2 d B)
       \<and> asks (applyDelta pf depth t3 t4 d (applyDelta pf depth t1 t2 d B))
           = asks (applyDelta pf depth t1 t2 d B)"
proof (cases "orOpt (data_u d) (updateId B) = Some 1")
  case True
  then show ?thesis by (simp add: applyDelta_def orOpt_sentinel)
next
  case False
  then show ?thesis
    by (simp add: applyDelta_def orOpt_idem
          patchSide_twice [OF cmpDesc_key nzb] patchSide_twice [OF cmpAsc_key nza])
qed

lemma patchSide_present:
  assumes key: "\<And>x y. (cmp x y \<le> 0) = (f x \<le> (f y :: rat))"
    and nz: "\<forall>e \<in> set (orEmpty upd). pf (snd e) \<noteq> 0"
    and p: "map_of (rev (orEmpty upd)) p = Some s"
  shows "(p, s) \<in> set (patchSide pf cmp depth upd cur)
       \<or> (length (patchSide pf cmp depth upd cur) = depth
          \<and> p \<notin> fst ` set (patchSide pf cmp depth upd cur))"
proof -
  from p have ne: "orEmpty upd \<noteq> []" by auto
  show ?thesis
    using upsert_present [OF p, of depth f cur] ne
    by (simp add: patchSide_unfold [OF key] foldl_applyEntry_nonzero [OF nz])
qed

lemma patchSide_no_trim:
  assumes key: "\<And>x y. (cmp x y \<le> 0) = (f x \<le> (f y :: rat))"
    and nz: "\<forall>e \<in> set (orEmpty upd). pf (snd e) \<noteq> 0"
    and c: "card (fst ` set cur \<union> fst ` set (orEmpty upd)) \<le> depth"
    and p: "map_of (rev (orEmpty upd)) p = Some s"
  shows "(p, s) \<in> set (patchSide pf cmp depth upd cur)"
proof -
  from p have ne: "orEmpty upd \<noteq> []" by auto
  show ?thesis
    using upsert_no_trim [OF c p, of f] ne
    by (simp add: patchSide_unfold [OF key] foldl_applyEntry_nonzero [OF nz])
qed

lemma applyDelta_present:
  assumes nzb: "\<forall>e \<in> set (orEmpty (data_b d)). pf (snd e) \<noteq> 0"
    and nza: "\<forall>e \<in> set (orEmpty (data_a d)). pf (snd e) \<noteq> 0"
  shows "map_of (rev (orEmpty (data_b d))) p = Some s \<Longrightarrow>
           (p, s) \<in> set (bids (applyDelta pf depth t1 t2 d B))
           \<or> (length (bids (applyDelta pf depth t1 t2 d B)) = depth
              \<and> p \<notin> fst ` set (bids (applyDelta pf depth t1 t2 d B)))"
    and "map_of (rev (orEmpty (data_a d))) p = Some s \<Longrightarrow>
           (p, s) \<in> set (asks (applyDelta pf depth t1 t2 d B))
           \<or> (length (asks (applyDelta pf depth t1 t2 d B)) = depth
              \<and> p \<notin> fst ` set (asks (applyDelta pf depth t1 t2 d B)))"
proof -
  show "(p, s) \<in> set (bids (applyDelta pf depth t1 t2 d B))
           \<or> (length (bids (applyDelta pf depth t1 t2 d B)) = depth
              \<and> p \<notin> fst ` set (bids (applyDelta pf depth t1 t2 d B)))"
    if m: "map_of (rev (orEmpty (data_b d))) p = Some s"
  proof (cases "orOpt (data_u d) (updateId B) = Some 1")
    case True
    from m have "(p, s) \<in> set (orEmpty (data_b d))" by (auto dest: map_of_SomeD)
    with True show ?thesis by (simp add: applyDelta_def)
  next
    case False
    then show ?thesis
      using patchSide_present [where cmp = "cmpDesc pf" and f = "\<lambda>l. - pf (fst l)" and pf = pf
          and upd = "data_b d" and depth = depth and cur = "bids B", OF cmpDesc_key nzb m]
      by (simp add: applyDelta_def)
  qed
  show "(p, s) \<in> set (asks (applyDelta pf depth t1 t2 d B))
           \<or> (length (asks (applyDelta pf depth t1 t2 d B)) = depth
              \<and> p \<notin> fst ` set (asks (applyDelta pf depth t1 t2 d B)))"
    if m: "map_of (rev (orEmpty (data_a d))) p = Some s"
  proof (cases "orOpt (data_u d) (updateId B) = Some 1")
    case True
    from m have "(p, s) \<in> set (orEmpty (data_a d))" by (auto dest: map_of_SomeD)
    with True show ?thesis by (simp add: applyDelta_def)
  next
    case False
    then show ?thesis
      using patchSide_present [where cmp = "cmpAsc pf" and f = "\<lambda>l. pf (fst l)" and pf = pf
          and upd = "data_a d" and depth = depth and cur = "asks B", OF cmpAsc_key nza m]
      by (simp add: applyDelta_def)
  qed
qed

lemma applyDelta_no_trim:
  assumes nzb: "\<forall>e \<in> set (orEmpty (data_b d)). pf (snd e) \<noteq> 0"
    and nza: "\<forall>e \<in> set (orEmpty (data_a d)). pf (snd e) \<noteq> 0"
  shows "card (fst ` set (bids B) \<union> fst ` set (orEmpty (data_b d))) \<le> depth \<Longrightarrow>
         map_of (rev (orEmpty (data_b d))) p = Some s \<Longrightarrow>
           (p, s) \<in> set (bids (applyDelta pf depth t1 t2 d B))"
    and "card (fst ` set (asks B) \<union> fst ` set (orEmpty (data_a d))) \<le> depth \<Longrightarrow>
         map_of (rev (orEmpty (data_a d))) p = Some s \<Longrightarrow>
           (p, s) \<in> set (asks (applyDelta pf depth t1 t2 d B))"
proof -
  show "(p, s) \<in> set (bids (applyDelta pf depth t1 t2 d B))"
    if c: "card (fst ` set (bids B) \<union> fst ` set (orEmpty (data_b d))) \<le> depth"
      and m: "map_of (rev (orEmpty (data_b d))) p = Some s"
  proof (cases "orOpt (data_u d) (updateId B) = Some 1")
    case True
    from m have "(p, s) \<in> set (orEmpty (data_b d))" by (auto dest: map_of_SomeD)
    with True show ?thesis by (simp add: applyDelta_def)
  next
    case False
    then show ?thesis
      using patchSide_no_trim [where cmp = "cmpDesc pf" and f = "\<lambda>l. - pf (fst l)" and pf = pf
          and upd = "data_b d" and depth = depth and cur = "bids B", OF cmpDesc_key nzb c m] by (simp add: applyDelta_def)
  qed
  show "(p, s) \<in> set (asks (applyDelta pf depth t1 t2 d B))"
    if c: "card (fst ` set (asks B) \<union> fst ` set (orEmpty (data_a d))) \<le> depth"
      and m: "map_of (rev (orEmpty (data_a d))) p = Some s"
  proof (cases "orOpt (data_u d) (updateId B) = Some 1")
    case True
    from m have "(p, s) \<in> set (orEmpty (data_a d))" by (auto dest: map_of_SomeD)
    with True show ?thesis by (simp add: applyDelta_def)
  next
    case False
    then show ?thesis
      using patchSide_no_trim [where cmp = "cmpAsc pf" and f = "\<lambda>l. pf (fst l)" and pf = pf
          and upd = "data_a d" and depth = depth and cur = "asks B", OF cmpAsc_key nza c m] by (simp add: applyDelta_def)
  qed
qed

lemma applyDelta_sizes:
  assumes nzb: "\<forall>e \<in> set (orEmpty (data_b d)). pf (snd e) \<noteq> 0"
    and nza: "\<forall>e \<in> set (orEmpty (data_a d)). pf (snd e) \<noteq> 0"
  shows "l \<in> set (bids (applyDelta pf depth t1 t2 d B)) \<Longrightarrow>
         fst l \<in> fst ` set (orEmpty (data_b d)) \<Longrightarrow> l \<in> set (orEmpty (data_b d))"
    and "l \<in> set (asks (applyDelta pf depth t1 t2 d B)) \<Longrightarrow>
         fst l \<in> fst ` set (orEmpty (data_a d)) \<Longrightarrow> l \<in> set (orEmpty (data_a d))"
proof -
  show "l \<in> set (orEmpty (data_b d))"
    if "l \<in> set (bids (applyDelta pf depth t1 t2 d B))" "fst l \<in> fst ` set (orEmpty (data_b d))"
  proof (cases "orOpt (data_u d) (updateId B) = Some 1")
    case True
    with that(1) show ?thesis by (simp add: applyDelta_def)
  next
    case False
    with that(1) have "l \<in> set (patchSide pf (cmpDesc pf) depth (data_b d) (bids B))"
      by (simp add: applyDelta_def)
    then show ?thesis using that(2) by (rule patchSide_sizes [OF cmpDesc_key nzb])
  qed
  show "l \<in> set (orEmpty (data_a d))"
    if "l \<in> set (asks (applyDelta pf depth t1 t2 d B))" "fst l \<in> fst ` set (orEmpty (data_a d))"
  proof (cases "orOpt (data_u d) (updateId B) = Some 1")
    case True
    with that(1) show ?thesis by (simp add: applyDelta_def)
  next
    case False
    with that(1) have "l \<in> set (patchSide pf (cmpAsc pf) depth (data_a d) (asks B))"
      by (simp add: applyDelta_def)
    then show ?thesis using that(2) by (rule patchSide_sizes [OF cmpAsc_key nza])
  qed
qed

subsection \<open>The book across messages\<close>

lemma strictlyDesc_if:
  assumes "weaklyDesc pf xs" "distinct (map fst xs)" "inj_on pf (fst ` set xs)"
  shows "strictlyDesc pf xs"
proof -
  have "inj_on (\<lambda>k. - pf k) (set (map fst xs))"
    using assms(3) by (auto simp: inj_on_def)
  with assms(2) have "distinct (map (\<lambda>k. - pf k) (map fst xs))"
    by (simp add: distinct_map comp_inj_on)
  then have "distinct (map (\<lambda>l. - pf (fst l)) xs)" by (simp add: comp_def)
  with assms(1) have "sorted_wrt (<) (map (\<lambda>l. - pf (fst l)) xs)"
    by (simp add: strict_sorted_iff weaklyDesc_sorted)
  then show ?thesis by (simp add: strictlyDesc_def sorted_wrt_map)
qed

lemma strictlyAsc_if:
  assumes "weaklyAsc pf xs" "distinct (map fst xs)" "inj_on pf (fst ` set xs)"
  shows "strictlyAsc pf xs"
proof -
  have "inj_on pf (set (map fst xs))" using assms(3) by simp
  with assms(2) have "distinct (map pf (map fst xs))"
    by (simp add: distinct_map comp_inj_on)
  then have "distinct (map (\<lambda>l. pf (fst l)) xs)" by (simp add: comp_def)
  with assms(1) have "sorted_wrt (<) (map (\<lambda>l. pf (fst l)) xs)"
    by (simp add: strict_sorted_iff weaklyAsc_sorted)
  then show ?thesis by (simp add: strictlyAsc_def sorted_wrt_map)
qed

lemma applyDelta_bookOk:
  assumes "bookOk pf depth B"
    and "orOpt (data_u d) (updateId B) = Some 1 \<Longrightarrow> dataOk pf depth d"
  shows "bookOk pf depth (applyDelta pf depth t1 t2 d B)"
proof (cases "orOpt (data_u d) (updateId B) = Some 1")
  case True
  with assms(2) show ?thesis by (simp add: applyDelta_def bookOk_def dataOk_def)
next
  case False
  with assms(1) show ?thesis
    by (simp add: applyDelta_def bookOk_def bidsOk_patchSide asksOk_patchSide)
qed

lemma storedVerbatim_delta:
  "mtype m = Some ''delta'' \<Longrightarrow> orOpt (data_u (mdata m)) w = Some 1 \<Longrightarrow> storedVerbatim m"
  by (simp add: storedVerbatim_def orOpt_def split: if_splits)

lemma handleMessage_cases:
  "handleMessage pf symbol depth t1 t2 msg st =
     (if paused st \<or> \<not> forHook symbol depth msg then st
      else if mtype msg = Some ''snapshot''
        then st\<lparr>orderBook := applySnapshot t1 t2 (mdata msg), isLoading := False\<rparr>
      else if mtype msg = Some ''delta''
        then st\<lparr>orderBook := applyDelta pf depth t1 t2 (mdata msg) (orderBook st)\<rparr>
      else st)"
  by (simp add: handleMessage_def forHook_def split: option.splits)

lemma handleMessage_bookOk:
  assumes "bookOk pf depth (orderBook st)"
    and "forHook symbol depth msg \<Longrightarrow> storedVerbatim msg \<Longrightarrow> dataOk pf depth (mdata msg)"
  shows "bookOk pf depth (orderBook (handleMessage pf symbol depth t1 t2 msg st))"
proof (cases "paused st \<or> \<not> forHook symbol depth msg")
  case True
  with assms(1) show ?thesis by (simp add: handleMessage_cases)
next
  case live: False
  show ?thesis
  proof (cases "mtype msg = Some ''snapshot''")
    case True
    then have "storedVerbatim msg" by (simp add: storedVerbatim_def)
    with assms(2) live have "dataOk pf depth (mdata msg)" by simp
    with True live show ?thesis
      by (simp add: handleMessage_cases applySnapshot_def bookOk_def dataOk_def)
  next
    case False
    show ?thesis
    proof (cases "mtype msg = Some ''delta''")
      case True
      have "bookOk pf depth (applyDelta pf depth t1 t2 (mdata msg) (orderBook st))"
        using assms(1)
      proof (rule applyDelta_bookOk)
        assume "orOpt (data_u (mdata msg)) (updateId (orderBook st)) = Some 1"
        with True have "storedVerbatim msg" by (rule storedVerbatim_delta)
        with assms(2) live show "dataOk pf depth (mdata msg)" by simp
      qed
      with True live show ?thesis by (simp add: handleMessage_cases)
    next
      case other: False
      with False live assms(1) show ?thesis by (simp add: handleMessage_cases)
    qed
  qed
qed

lemma handleMessages_bookOk:
  assumes "\<forall>ev \<in> set evs. forHook symbol depth (snd (snd ev)) \<longrightarrow> storedVerbatim (snd (snd ev))
             \<longrightarrow> dataOk pf depth (mdata (snd (snd ev)))"
    and "bookOk pf depth (orderBook st)"
  shows "bookOk pf depth (orderBook (handleMessages pf symbol depth evs st))"
  using assms
proof (induction evs arbitrary: st)
  case Nil
  then show ?case by (simp add: handleMessages_def)
next
  case (Cons ev evs)
  obtain t1 t2 msg where ev: "ev = (t1, t2, msg)" by (cases ev) auto
  have "bookOk pf depth (orderBook (handleMessage pf symbol depth t1 t2 msg st))"
    using Cons.prems ev by (intro handleMessage_bookOk) auto
  moreover have "handleMessages pf symbol depth (ev # evs) st
      = handleMessages pf symbol depth evs (handleMessage pf symbol depth t1 t2 msg st)"
    by (simp add: handleMessages_def ev)
  ultimately show ?case using Cons.IH Cons.prems(1) by simp
qed

lemma bookOk_initial: "bookOk pf depth initialBook"
  by (simp add: bookOk_def bidsOk_def asksOk_def noZeroSize_def weaklyDesc_def weaklyAsc_def
        initialBook_def)

subsection \<open>The proxy\<close>

lemma wsSend_fields:
  "snapshotCache (wsSend i msg st) = snapshotCache st"
  "subscribedSymbols (wsSend i msg st) = subscribedSymbols st"
  "bybitWs (wsSend i msg st) = bybitWs st"
  by (simp_all add: wsSend_def split: option.splits)

lemma wsSend_outbox:
  "outboxOf (wsSend i msg st) i = (if clientOpen st i then outboxOf st i @ [msg] else outboxOf st i)"
  by (simp add: wsSend_def outboxOf_def clientOpen_def split: option.splits)

lemma wsSend_open: "clientOpen (wsSend i msg st) j = clientOpen st j"
  by (cases "i = j") (auto simp: wsSend_def clientOpen_def split: option.splits)

lemma subscribeToSymbols_fields:
  "snapshotCache (subscribeToSymbols symbols depth st) = snapshotCache st"
  "clientWss (subscribeToSymbols symbols depth st) = clientWss st"
  by (simp_all add: subscribeToSymbols_def Let_def split: option.splits)

lemma unsubscribeFromSymbols_fields:
  "snapshotCache (unsubscribeFromSymbols symbols depth st) = snapshotCache st"
  "clientWss (unsubscribeFromSymbols symbols depth st) = clientWss st"
  by (simp_all add: unsubscribeFromSymbols_def Let_def split: option.splits)

lemma sendCached_cache: "snapshotCache (sendCached i od st symbol) = snapshotCache st"
  by (simp add: sendCached_def wsSend_fields split: option.splits)

lemma sendCached_open: "clientOpen (sendCached i od st symbol) j = clientOpen st j"
  by (simp add: sendCached_def wsSend_open split: option.splits)

lemma cachedFor_cong:
  "snapshotCache st' = snapshotCache st \<Longrightarrow> cachedFor st' od symbols = cachedFor st od symbols"
  by (simp add: cachedFor_def)

lemma cachedFor_Cons:
  "cachedFor st od (symbol # symbols) =
     (case mapGet (snapshotCache st) (subKey symbol (showNat od)) of
        None \<Rightarrow> [] | Some c \<Rightarrow> [Data c]) @ cachedFor st od symbols"
  by (simp add: cachedFor_def)

lemma foldl_sendCached:
  "clientOpen st i \<Longrightarrow>
     snapshotCache (foldl (sendCached i od) st symbols) = snapshotCache st
   \<and> clientOpen (foldl (sendCached i od) st symbols) i
   \<and> outboxOf (foldl (sendCached i od) st symbols) i = outboxOf st i @ cachedFor st od symbols"
proof (induction symbols arbitrary: st)
  case Nil
  then show ?case by (simp add: cachedFor_def)
next
  case (Cons symbol symbols)
  let ?st1 = "sendCached i od st symbol"
  have c: "snapshotCache ?st1 = snapshotCache st" by (rule sendCached_cache)
  have o: "clientOpen ?st1 i" using Cons.prems by (simp add: sendCached_open)
  have b: "outboxOf ?st1 i = outboxOf st i @
      (case mapGet (snapshotCache st) (subKey symbol (showNat od)) of
        None \<Rightarrow> [] | Some c \<Rightarrow> [Data c])"
    using Cons.prems by (simp add: sendCached_def wsSend_outbox split: option.splits)
  from Cons.IH [OF o] c b show ?case
    by (simp add: cachedFor_Cons cachedFor_cong [OF c])
qed

lemma foldl_sendCached_cache:
  "snapshotCache (foldl (sendCached i od) st symbols) = snapshotCache st"
  by (induction symbols arbitrary: st) (simp_all add: sendCached_cache)

lemma handleClientMessage_cache:
  "snapshotCache (handleClientMessage i now cdata st) = snapshotCache st"
  by (simp add: handleClientMessage_def Let_def wsSend_fields foldl_sendCached_cache
        subscribeToSymbols_fields unsubscribeFromSymbols_fields split: option.splits)

lemma subscribeToSymbols_client:
  "clientOpen (subscribeToSymbols symbols depth st) i = clientOpen st i"
  "outboxOf (subscribeToSymbols symbols depth st) i = outboxOf st i"
  "cachedFor (subscribeToSymbols symbols depth st) od syms = cachedFor st od syms"
  by (simp_all add: clientOpen_def outboxOf_def cachedFor_def subscribeToSymbols_fields)

lemma handleClientMessage_subscribe:
  assumes "clientOpen st i" and "cd_type cdata \<noteq> Some ''ping''"
    and "cd_action cdata = Some ''subscribe''" and "cd_symbols cdata = Some symbols"
  shows "outboxOf (handleClientMessage i now cdata st) i
           = outboxOf st i
             @ cachedFor st (orNat (cd_depth cdata) 50) symbols
             @ [Subscribed symbols (orNat (cd_depth cdata) 50)]"
    and "clientOpen (handleClientMessage i now cdata st) i"
proof -
  let ?od = "orNat (cd_depth cdata) 50"
  let ?s1 = "subscribeToSymbols symbols ?od st"
  have o: "clientOpen ?s1 i" using assms(1) by (simp add: subscribeToSymbols_client)
  note f = foldl_sendCached [OF o, of ?od symbols]
  have h: "handleClientMessage i now cdata st
      = wsSend i (Subscribed symbols ?od) (foldl (sendCached i ?od) ?s1 symbols)"
    using assms(2-4) by (simp add: handleClientMessage_def Let_def)
  show "outboxOf (handleClientMessage i now cdata st) i
           = outboxOf st i @ cachedFor st ?od symbols @ [Subscribed symbols ?od]"
    using f by (simp add: h wsSend_outbox subscribeToSymbols_client)
  show "clientOpen (handleClientMessage i now cdata st) i"
    using f by (simp add: h wsSend_open)
qed

lemma broadcast_outbox:
  "outboxOf (broadcast m st) i = (if clientOpen st i then outboxOf st i @ [Data m] else outboxOf st i)"
  by (simp add: broadcast_def outboxOf_def clientOpen_def deliver_def split: option.splits)

lemma broadcast_cache: "snapshotCache (broadcast m st) = snapshotCache st"
  by (simp add: broadcast_def split: option.splits)

lemma handleBybitMessage_cases:
  "handleBybitMessage m st =
     (if orderbookData m
      then broadcast m
             (if mtype m = Some ''snapshot''
              then st\<lparr>snapshotCache := mapSet (cacheKey m) m (snapshotCache st)\<rparr>
              else st)
      else st)"
  by (simp add: handleBybitMessage_def orderbookData_def cacheKey_def orEmpty_def Let_def
        split: option.splits)

lemma handleBybitMessage_cache:
  "mapGet (snapshotCache (handleBybitMessage m st)) k =
     (if orderbookData m \<and> mtype m = Some ''snapshot'' \<and> cacheKey m = k then Some m
      else mapGet (snapshotCache st) k)"
  by (simp add: handleBybitMessage_cases broadcast_cache mapGet_def map_of_mapSet)

lemma cache_update_client:
  "outboxOf (st\<lparr>snapshotCache := c\<rparr>) i = outboxOf st i"
  "clientOpen (st\<lparr>snapshotCache := c\<rparr>) i = clientOpen st i"
  by (simp_all add: outboxOf_def clientOpen_def)

lemma handleBybitMessage_outbox:
  "orderbookData m \<Longrightarrow>
   outboxOf (handleBybitMessage m st) i
     = (if clientOpen st i then outboxOf st i @ [Data m] else outboxOf st i)"
  by (simp add: handleBybitMessage_cases broadcast_outbox cache_update_client)

lemma handleBybitMessage_clients:
  "orderbookData m \<Longrightarrow>
   clientWss (handleBybitMessage m st) = map_option (map (deliver m)) (clientWss st)"
  by (simp add: handleBybitMessage_cases broadcast_def split: option.splits)

section \<open>The claims\<close>

subsection \<open>The book invariant\<close>

text \<open>
  C1 (as amended). Starting from the uninitialized book, after any finite sequence of
  messages handled in arrival order in which every message for the hook that can be
  stored as it is (a snapshot, or a delta whose update id is 1, absent or 0) carries lists
  that are themselves well formed, the book is well formed: neither side holds an entry
  of size zero, each side holds at most \<open>depth\<close> levels with pairwise distinct price
  strings, bids are sorted descending and asks ascending by parsed price. The order is
  strict on a side whose price strings parse to distinct numbers.
\<close>

theorem reconstruction_invariant:
  assumes "\<forall>ev \<in> set evs. forHook symbol depth (snd (snd ev)) \<longrightarrow> storedVerbatim (snd (snd ev))
             \<longrightarrow> dataOk pf depth (mdata (snd (snd ev)))"
  shows "bookOk pf depth (orderBook (handleMessages pf symbol depth evs initialHook))
       \<and> (inj_on pf (fst ` set (bids (orderBook (handleMessages pf symbol depth evs initialHook))))
            \<longrightarrow> strictlyDesc pf (bids (orderBook (handleMessages pf symbol depth evs initialHook))))
       \<and> (inj_on pf (fst ` set (asks (orderBook (handleMessages pf symbol depth evs initialHook))))
            \<longrightarrow> strictlyAsc pf (asks (orderBook (handleMessages pf symbol depth evs initialHook))))"
proof -
  have "bookOk pf depth (orderBook initialHook)"
    by (simp add: initialHook_def bookOk_initial)
  with assms have ok: "bookOk pf depth (orderBook (handleMessages pf symbol depth evs initialHook))"
    by (rule handleMessages_bookOk)
  then show ?thesis
    by (simp add: bookOk_def bidsOk_def asksOk_def strictlyDesc_if strictlyAsc_if)
qed

theorem reconstruction_invariant_witness:
  "bookOk parseFloatDec 50
     (orderBook (handleMessages parseFloatDec ''BTCUSDT'' 50
        [(1, 2, scenarioSnapshot), (3, 4, scenarioDelta)] initialHook))
   \<and> bids (orderBook (handleMessages parseFloatDec ''BTCUSDT'' 50
        [(1, 2, scenarioSnapshot), (3, 4, scenarioDelta)] initialHook)) = [(''99'', ''2'')]"
proof -
  have ok: "dataOk parseFloatDec 50 (mdata scenarioSnapshot)" by code_simp
  have dl: "\<not> storedVerbatim scenarioDelta" by code_simp
  have h: "\<forall>ev \<in> set [(1::int, 2::int, scenarioSnapshot), (3, 4, scenarioDelta)].
             forHook ''BTCUSDT'' 50 (snd (snd ev)) \<longrightarrow> storedVerbatim (snd (snd ev))
             \<longrightarrow> dataOk parseFloatDec 50 (mdata (snd (snd ev)))"
    using ok dl by simp
  have v: "bids (orderBook (handleMessages parseFloatDec ''BTCUSDT'' 50
        [(1, 2, scenarioSnapshot), (3, 4, scenarioDelta)] initialHook)) = [(''99'', ''2'')]"
    by code_simp
  from reconstruction_invariant [OF h] v show ?thesis by blast
qed

text \<open>
  As stated, for every sequence, the claim fails. A snapshot is stored as sent: with depth 1,
  the bid list \<open>[["99","0"],["100","5"]]\<close> leaves an entry of size zero, two levels and
  an ascending pair. And two price strings of one value, \<open>"100"\<close> and \<open>"100.0"\<close>, are two
  keys of the map, so a delta after the scenario's snapshot leaves bids that are not
  strictly descending.
\<close>

theorem snapshot_breaks_invariant:
  "\<not> noZeroSize parseFloatDec
       (bids (orderBook (handleMessages parseFloatDec ''BTCUSDT'' 1
          [(1, 2, \<lparr>msg_op = None, topic = Some ''orderbook.1.BTCUSDT'', mtype = Some ''snapshot'',
                   mdata = \<lparr>data_b = Some [(''99'', ''0''), (''100'', ''5'')], data_a = Some [],
                            data_u = Some 10, data_ts = None\<rparr>\<rparr>)] initialHook)))
   \<and> \<not> length (bids (orderBook (handleMessages parseFloatDec ''BTCUSDT'' 1
          [(1, 2, \<lparr>msg_op = None, topic = Some ''orderbook.1.BTCUSDT'', mtype = Some ''snapshot'',
                   mdata = \<lparr>data_b = Some [(''99'', ''0''), (''100'', ''5'')], data_a = Some [],
                            data_u = Some 10, data_ts = None\<rparr>\<rparr>)] initialHook))) \<le> 1
   \<and> \<not> strictlyDesc parseFloatDec
       (bids (orderBook (handleMessages parseFloatDec ''BTCUSDT'' 1
          [(1, 2, \<lparr>msg_op = None, topic = Some ''orderbook.1.BTCUSDT'', mtype = Some ''snapshot'',
                   mdata = \<lparr>data_b = Some [(''99'', ''0''), (''100'', ''5'')], data_a = Some [],
                            data_u = Some 10, data_ts = None\<rparr>\<rparr>)] initialHook)))
   \<and> \<not> strictlyDesc parseFloatDec
       (bids (orderBook (handleMessages parseFloatDec ''BTCUSDT'' 50
          [(1, 2, scenarioSnapshot),
           (3, 4, \<lparr>msg_op = None, topic = Some ''orderbook.50.BTCUSDT'', mtype = Some ''delta'',
                   mdata = \<lparr>data_b = Some [(''100.0'', ''2'')], data_a = None,
                            data_u = Some 11, data_ts = None\<rparr>\<rparr>)] initialHook)))"
  by code_simp

subsection \<open>Snapshots\<close>

text \<open>
  C2 (as amended). For every prior state of a hook that is not paused, a snapshot message
  that passes the topic guard replaces the book wholesale: the bids and asks become the
  message's lists exactly as sent, entries of size 0 included; \<open>updateId\<close> becomes the
  message's \<open>u\<close> (0 when absent) and \<open>timestamp\<close> its \<open>ts\<close> (the clock when absent
  or 0). Nothing of the prior book remains.
\<close>

theorem snapshot_replaces_verbatim:
  assumes "\<not> paused st" and "forHook symbol depth msg" and "mtype msg = Some ''snapshot''"
  shows "orderBook (handleMessage pf symbol depth t1 t2 msg st) =
           \<lparr>bids = orEmpty (data_b (mdata msg)),
            asks = orEmpty (data_a (mdata msg)),
            timestamp = Some (orNum (data_ts (mdata msg)) t1),
            updateId = Some (orNum (data_u (mdata msg)) 0),
            lastUpdate = Some t2\<rparr>"
  using assms by (auto simp: handleMessage_def forHook_def applySnapshot_def split: option.splits)

theorem snapshot_replaces_verbatim_witness:
  "orderBook (handleMessage parseFloatDec ''BTCUSDT'' 50 1 2 scenarioSnapshot initialHook) =
     \<lparr>bids = [(''100'', ''5'')], asks = [(''101'', ''3'')],
      timestamp = Some 1, updateId = Some 10, lastUpdate = Some 2\<rparr>"
proof -
  have p: "\<not> paused initialHook" by (simp add: initialHook_def)
  have f: "forHook ''BTCUSDT'' 50 scenarioSnapshot" by code_simp
  have s: "mtype scenarioSnapshot = Some ''snapshot''" by (simp add: scenarioSnapshot_def)
  show ?thesis
    using snapshot_replaces_verbatim [OF p f s, of parseFloatDec 1 2]
    by (simp add: scenarioSnapshot_def orEmpty_def orNum_def)
qed

text \<open>
  The claim as stated fails: a snapshot whose bid list holds an entry of size 0 leaves
  that entry in the book.
\<close>

theorem snapshot_keeps_zero_size_entry:
  "bids (applySnapshot 1 2
           \<lparr>data_b = Some [(''100'', ''0''), (''99'', ''2'')], data_a = Some [],
            data_u = Some 10, data_ts = Some 5\<rparr>)
     = [(''100'', ''0''), (''99'', ''2'')]
   \<and> parseFloatDec ''0'' = 0
   \<and> bids (applySnapshot 1 2
           \<lparr>data_b = Some [(''100'', ''0''), (''99'', ''2'')], data_a = Some [],
            data_u = Some 10, data_ts = Some 5\<rparr>)
     \<noteq> filter (\<lambda>l. parseFloatDec (snd l) \<noteq> 0) [(''100'', ''0''), (''99'', ''2'')]"
  by code_simp

subsection \<open>A delta before any snapshot\<close>

text \<open>
  C3 (as amended). A delta that arrives for a hook whose book has received no snapshot is
  not rejected: the hook, unless paused, applies it to the empty initial book as it would
  to any book, and stays in the loading state. With update id 1 the delta's lists become
  the book; otherwise each side is the delta's list upserted into the empty side, sorted
  and trimmed to \<open>depth\<close>.
\<close>

theorem delta_before_snapshot_is_applied:
  assumes "forHook symbol depth msg" and "mtype msg = Some ''delta''"
  shows "handleMessage pf symbol depth t1 t2 msg initialHook
           = initialHook\<lparr>orderBook := applyDelta pf depth t1 t2 (mdata msg) initialBook\<rparr>
       \<and> bids (applyDelta pf depth t1 t2 (mdata msg) initialBook)
           = (if data_u (mdata msg) = Some 1 then orEmpty (data_b (mdata msg))
              else patchSide pf (cmpDesc pf) depth (data_b (mdata msg)) [])
       \<and> asks (applyDelta pf depth t1 t2 (mdata msg) initialBook)
           = (if data_u (mdata msg) = Some 1 then orEmpty (data_a (mdata msg))
              else patchSide pf (cmpAsc pf) depth (data_a (mdata msg)) [])"
proof -
  have "orOpt (data_u (mdata msg)) None = Some 1 \<longleftrightarrow> data_u (mdata msg) = Some 1"
    by (auto simp: orOpt_def truthy_def)
  then show ?thesis using assms
    by (simp add: handleMessage_cases initialHook_def initialBook_def applyDelta_def)
qed

theorem delta_before_snapshot_is_applied_witness:
  "handleMessage parseFloatDec ''BTCUSDT'' 50 3 4 scenarioDelta initialHook
     = \<lparr>orderBook = \<lparr>bids = [(''99'', ''2'')], asks = [], timestamp = Some 3,
                     updateId = Some 11, lastUpdate = Some 4\<rparr>,
        isLoading = True, paused = False\<rparr>"
proof -
  have f: "forHook ''BTCUSDT'' 50 scenarioDelta" by code_simp
  have t: "mtype scenarioDelta = Some ''delta''" by (simp add: scenarioDelta_def)
  have v: "applyDelta parseFloatDec 50 3 4 (mdata scenarioDelta) initialBook
     = \<lparr>bids = [(''99'', ''2'')], asks = [], timestamp = Some 3,
        updateId = Some 11, lastUpdate = Some 4\<rparr>" by code_simp
  from delta_before_snapshot_is_applied [OF f t, of parseFloatDec 3 4]
  have "handleMessage parseFloatDec ''BTCUSDT'' 50 3 4 scenarioDelta initialHook
           = initialHook\<lparr>orderBook := applyDelta parseFloatDec 50 3 4 (mdata scenarioDelta) initialBook\<rparr>"
    by (rule conjunct1)
  then show ?thesis by (simp add: v initialHook_def)
qed

text \<open>
  As stated the claim fails: the scenario's delta, arriving first, changes the initial state.
\<close>

theorem delta_before_snapshot_changes_book:
  "handleMessage parseFloatDec ''BTCUSDT'' 50 3 4 scenarioDelta initialHook \<noteq> initialHook
   \<and> bids (orderBook (handleMessage parseFloatDec ''BTCUSDT'' 50 3 4 scenarioDelta initialHook))
       = [(''99'', ''2'')]"
  by code_simp

subsection \<open>Resubscription on reconnect\<close>

text \<open>
  C4. On (re)open the connector should subscribe again to the keys it holds, each as the
  channel \<open>orderbook.<depth>.<symbol>\<close> of the key's own symbol and depth. The code hands
  the keys themselves to \<open>subscribeToSymbols\<close> as if they were symbols, with the default
  depth: after one subscription to BTCUSDT at depth 200 and a reconnect, the argument sent
  is \<open>orderbook.50.BTCUSDT-200\<close>, and the malformed key \<open>BTCUSDT-200-50\<close> joins the set.
\<close>

theorem resubscribe_sends_key_as_symbol:
  "bybitWs subscribedOnce
     = Some \<lparr>upState = OPEN, upSent = [Subscribe [''orderbook.200.BTCUSDT'']]\<rparr>
   \<and> subscribedSymbols subscribedOnce = [''BTCUSDT-200'']
   \<and> bybitWs (bybitOpen (connectToBybit subscribedOnce))
     = Some \<lparr>upState = OPEN, upSent = [Subscribe [''orderbook.50.BTCUSDT-200'']]\<rparr>
   \<and> subscribedSymbols (bybitOpen (connectToBybit subscribedOnce))
     = [''BTCUSDT-200'', ''BTCUSDT-200-50'']"
  by code_simp

subsection \<open>Deleting a level\<close>

text \<open>
  C5 (as amended). For every book side, the entry \<open>[price, z]\<close> with \<open>z\<close> parsing to
  zero deletes from the map built of that side exactly the entry whose key is the string
  \<open>price\<close>. For a delta that does not take the restart branch and whose list for a side
  is that single entry, on a side with distinct price strings, sorted and within
  \<open>depth\<close>, the new side is the old one without that level. The scenario's snapshot
  followed by its delta yields bids \<open>[["99","2"]]\<close>.
\<close>

theorem zero_size_entry_deletes_level:
  assumes "pf z = 0"
  shows "applyEntry pf (newMap xs) (price, z) = filter (\<lambda>l. fst l \<noteq> price) (newMap xs)
       \<and> (orOpt (data_u d) (updateId B) \<noteq> Some 1 \<longrightarrow> data_b d = Some [(price, z)]
            \<longrightarrow> distinct (map fst (bids B)) \<longrightarrow> weaklyDesc pf (bids B) \<longrightarrow> length (bids B) \<le> depth
            \<longrightarrow> bids (applyDelta pf depth t1 t2 d B) = filter (\<lambda>l. fst l \<noteq> price) (bids B))
       \<and> (orOpt (data_u d) (updateId B) \<noteq> Some 1 \<longrightarrow> data_a d = Some [(price, z)]
            \<longrightarrow> distinct (map fst (asks B)) \<longrightarrow> weaklyAsc pf (asks B) \<longrightarrow> length (asks B) \<le> depth
            \<longrightarrow> asks (applyDelta pf depth t1 t2 d B) = filter (\<lambda>l. fst l \<noteq> price) (asks B))
       \<and> bids (applyDelta parseFloatDec 50 3 4 (mdata scenarioDelta)
                 (applySnapshot 1 2 (mdata scenarioSnapshot))) = [(''99'', ''2'')]"
proof -
  have e: "applyEntry pf (newMap xs) (price, z) = filter (\<lambda>l. fst l \<noteq> price) (newMap xs)"
    using assms by (simp add: applyEntry_cases mapDelete_filter distinct_newMap)
  have b: "bids (applyDelta pf depth t1 t2 d B) = filter (\<lambda>l. fst l \<noteq> price) (bids B)"
    if "orOpt (data_u d) (updateId B) \<noteq> Some 1" "data_b d = Some [(price, z)]"
      "distinct (map fst (bids B))" "weaklyDesc pf (bids B)" "length (bids B) \<le> depth"
    using that patchSide_delete_one [where cmp = "cmpDesc pf" and f = "\<lambda>l. - pf (fst l)"
        and pf = pf and z = z and cur = "bids B" and depth = depth and price = price,
        OF cmpDesc_key assms]
    by (simp add: applyDelta_def weaklyDesc_sorted)
  have a: "asks (applyDelta pf depth t1 t2 d B) = filter (\<lambda>l. fst l \<noteq> price) (asks B)"
    if "orOpt (data_u d) (updateId B) \<noteq> Some 1" "data_a d = Some [(price, z)]"
      "distinct (map fst (asks B))" "weaklyAsc pf (asks B)" "length (asks B) \<le> depth"
    using that patchSide_delete_one [where cmp = "cmpAsc pf" and f = "\<lambda>l. pf (fst l)"
        and pf = pf and z = z and cur = "asks B" and depth = depth and price = price,
        OF cmpAsc_key assms]
    by (simp add: applyDelta_def weaklyAsc_sorted)
  have s: "bids (applyDelta parseFloatDec 50 3 4 (mdata scenarioDelta)
                 (applySnapshot 1 2 (mdata scenarioSnapshot))) = [(''99'', ''2'')]"
    by code_simp
  from e b a s show ?thesis by blast
qed

theorem zero_size_entry_deletes_level_witness:
  "applyEntry parseFloatDec (newMap [(''100'', ''5''), (''99'', ''2'')]) (''100'', ''0'')
     = [(''99'', ''2'')]
   \<and> bids (applyDelta parseFloatDec 50 3 4
        \<lparr>data_b = Some [(''100'', ''0'')], data_a = None, data_u = Some 11, data_ts = None\<rparr>
        \<lparr>bids = [(''100'', ''5''), (''99'', ''2'')], asks = [(''101'', ''3'')],
         timestamp = Some 1, updateId = Some 10, lastUpdate = Some 2\<rparr>)
     = [(''99'', ''2'')]"
proof -
  let ?d = "\<lparr>data_b = Some [(''100'', ''0'')], data_a = None, data_u = Some (11::int),
             data_ts = None :: int option\<rparr>"
  let ?B = "\<lparr>bids = [(''100'', ''5''), (''99'', ''2'')], asks = [(''101'', ''3'')],
         timestamp = Some (1::int), updateId = Some (10::int), lastUpdate = Some (2::int)\<rparr>"
  have z: "parseFloatDec ''0'' = 0" by code_simp
  have u: "orOpt (data_u ?d) (updateId ?B) \<noteq> Some 1" by (simp add: orOpt_def truthy_def)
  have b: "data_b ?d = Some [(''100'', ''0'')]" by simp
  have k: "distinct (map fst (bids ?B))" by simp
  have w: "weaklyDesc parseFloatDec (bids ?B)" by code_simp
  have n: "length (bids ?B) \<le> 50" by simp
  have m: "newMap [(''100'', ''5''), (''99'', ''2'')] = [(''100'', ''5''), (''99'', ''2'')]"
    by code_simp
  note t = zero_size_entry_deletes_level [where pf = parseFloatDec and z = "''0''"
      and xs = "[(''100'', ''5''), (''99'', ''2'')]" and price = "''100''" and d = ?d and B = ?B
      and depth = 50 and ?t1.0 = 3 and ?t2.0 = 4, OF z]
  from t have "applyEntry parseFloatDec (newMap [(''100'', ''5''), (''99'', ''2'')]) (''100'', ''0'')
     = filter (\<lambda>l. fst l \<noteq> ''100'') (newMap [(''100'', ''5''), (''99'', ''2'')])"
    by (rule conjunct1)
  moreover from t u b k w n
  have "bids (applyDelta parseFloatDec 50 3 4 ?d ?B) = filter (\<lambda>l. fst l \<noteq> ''100'') (bids ?B)"
    by blast
  ultimately show ?thesis by (simp add: m)
qed

text \<open>
  As stated, for every book state, the claim fails. Under update id 1 the delta's list
  becomes the book: the level \<open>"99"\<close> goes as well and an entry with key \<open>"100"\<close> stays.
  And a side longer than \<open>depth\<close>, as a snapshot can leave it, is trimmed by the delta,
  which costs the level \<open>"98"\<close> too.
\<close>

theorem zero_size_entry_under_sentinel_or_trim:
  "bids (applyDelta parseFloatDec 50 3 4
        \<lparr>data_b = Some [(''100'', ''0'')], data_a = None, data_u = Some 1, data_ts = None\<rparr>
        \<lparr>bids = [(''100'', ''5''), (''99'', ''2'')], asks = [(''101'', ''3'')],
         timestamp = Some 1, updateId = Some 10, lastUpdate = Some 2\<rparr>)
     = [(''100'', ''0'')]
   \<and> filter (\<lambda>l. fst l \<noteq> ''100'') [(''100'', ''5''), (''99'', ''2'')] = [(''99'', ''2'')]
   \<and> bids (applyDelta parseFloatDec 1 3 4
        \<lparr>data_b = Some [(''100'', ''0'')], data_a = None, data_u = Some 11, data_ts = None\<rparr>
        (applySnapshot 1 2
           \<lparr>data_b = Some [(''100'', ''5''), (''99'', ''2''), (''98'', ''1'')], data_a = Some [],
            data_u = Some 10, data_ts = None\<rparr>))
     = [(''99'', ''2'')]
   \<and> filter (\<lambda>l. fst l \<noteq> ''100'') [(''100'', ''5''), (''99'', ''2''), (''98'', ''1'')]
     = [(''99'', ''2''), (''98'', ''1'')]"
  by code_simp

subsection \<open>Replaying a delta\<close>

text \<open>
  C6 (as amended). For every book and every delta with update id other than 1 whose
  entries all have non-zero size, applying the delta twice leaves the bids and asks that
  applying it once leaves, and every level of the result whose price the delta names
  carries a size the delta gives for that price, not a sum. Each price of the delta is in
  the final book with the delta's last size for it, unless the trim cut it: then the side
  is full, with \<open>depth\<close> levels, and does not hold that price. When the prices of the
  side and of the delta's list together number at most \<open>depth\<close>, nothing is cut and
  every price of the delta is in the final book with the delta's size.
\<close>

theorem delta_replay_upsert:
  assumes "data_u d \<noteq> Some 1"
    and "\<forall>e \<in> set (orEmpty (data_b d)) \<union> set (orEmpty (data_a d)). pf (snd e) \<noteq> 0"
  shows "bids (applyDelta pf depth t3 t4 d (applyDelta pf depth t1 t2 d B))
           = bids (applyDelta pf depth t1 t2 d B)
       \<and> asks (applyDelta pf depth t3 t4 d (applyDelta pf depth t1 t2 d B))
           = asks (applyDelta pf depth t1 t2 d B)
       \<and> (\<forall>l \<in> set (bids (applyDelta pf depth t3 t4 d (applyDelta pf depth t1 t2 d B))).
            fst l \<in> fst ` set (orEmpty (data_b d)) \<longrightarrow> l \<in> set (orEmpty (data_b d)))
       \<and> (\<forall>l \<in> set (asks (applyDelta pf depth t3 t4 d (applyDelta pf depth t1 t2 d B))).
            fst l \<in> fst ` set (orEmpty (data_a d)) \<longrightarrow> l \<in> set (orEmpty (data_a d)))
       \<and> (\<forall>p s. map_of (rev (orEmpty (data_b d))) p = Some s \<longrightarrow>
            (p, s) \<in> set (bids (applyDelta pf depth t3 t4 d (applyDelta pf depth t1 t2 d B)))
            \<or> (length (bids (applyDelta pf depth t3 t4 d (applyDelta pf depth t1 t2 d B))) = depth
               \<and> p \<notin> fst ` set (bids (applyDelta pf depth t3 t4 d (applyDelta pf depth t1 t2 d B)))))
       \<and> (\<forall>p s. map_of (rev (orEmpty (data_a d))) p = Some s \<longrightarrow>
            (p, s) \<in> set (asks (applyDelta pf depth t3 t4 d (applyDelta pf depth t1 t2 d B)))
            \<or> (length (asks (applyDelta pf depth t3 t4 d (applyDelta pf depth t1 t2 d B))) = depth
               \<and> p \<notin> fst ` set (asks (applyDelta pf depth t3 t4 d (applyDelta pf depth t1 t2 d B)))))
       \<and> (card (fst ` set (bids B) \<union> fst ` set (orEmpty (data_b d))) \<le> depth \<longrightarrow>
            (\<forall>p s. map_of (rev (orEmpty (data_b d))) p = Some s \<longrightarrow>
               (p, s) \<in> set (bids (applyDelta pf depth t3 t4 d (applyDelta pf depth t1 t2 d B)))))
       \<and> (card (fst ` set (asks B) \<union> fst ` set (orEmpty (data_a d))) \<le> depth \<longrightarrow>
            (\<forall>p s. map_of (rev (orEmpty (data_a d))) p = Some s \<longrightarrow>
               (p, s) \<in> set (asks (applyDelta pf depth t3 t4 d (applyDelta pf depth t1 t2 d B)))))"
proof -
  from assms(2) have nzb: "\<forall>e \<in> set (orEmpty (data_b d)). pf (snd e) \<noteq> 0"
    and nza: "\<forall>e \<in> set (orEmpty (data_a d)). pf (snd e) \<noteq> 0" by auto
  have twice: "bids (applyDelta pf depth t3 t4 d (applyDelta pf depth t1 t2 d B))
           = bids (applyDelta pf depth t1 t2 d B)"
      "asks (applyDelta pf depth t3 t4 d (applyDelta pf depth t1 t2 d B))
           = asks (applyDelta pf depth t1 t2 d B)"
    using applyDelta_twice [OF nzb nza, of depth t3 t4 t1 t2 B] by simp_all
  note sz = applyDelta_sizes [OF nzb nza, where depth = depth and ?t1.0 = t1 and ?t2.0 = t2 and B = B]
  note pr = applyDelta_present [OF nzb nza, where depth = depth and ?t1.0 = t1 and ?t2.0 = t2 and B = B]
  note nt = applyDelta_no_trim [OF nzb nza, where depth = depth and ?t1.0 = t1 and ?t2.0 = t2 and B = B]
  show ?thesis
    unfolding twice
    by (intro conjI ballI allI impI refl; (erule (1) sz | erule pr | erule (1) nt))
qed

theorem delta_replay_upsert_witness:
  "bids (applyDelta parseFloatDec 50 5 6
           \<lparr>data_b = Some [(''99'', ''2'')], data_a = Some [(''101'', ''4'')],
            data_u = Some 11, data_ts = None\<rparr>
           (applyDelta parseFloatDec 50 3 4
              \<lparr>data_b = Some [(''99'', ''2'')], data_a = Some [(''101'', ''4'')],
               data_u = Some 11, data_ts = None\<rparr>
              (applySnapshot 1 2 (mdata scenarioSnapshot))))
     = [(''100'', ''5''), (''99'', ''2'')]
   \<and> asks (applyDelta parseFloatDec 50 5 6
           \<lparr>data_b = Some [(''99'', ''2'')], data_a = Some [(''101'', ''4'')],
            data_u = Some 11, data_ts = None\<rparr>
           (applyDelta parseFloatDec 50 3 4
              \<lparr>data_b = Some [(''99'', ''2'')], data_a = Some [(''101'', ''4'')],
               data_u = Some 11, data_ts = None\<rparr>
              (applySnapshot 1 2 (mdata scenarioSnapshot))))
     = [(''101'', ''4'')]
   \<and> (''99'', ''2'') \<in> set (bids (applyDelta parseFloatDec 50 5 6
           \<lparr>data_b = Some [(''99'', ''2'')], data_a = Some [(''101'', ''4'')],
            data_u = Some 11, data_ts = None\<rparr>
           (applyDelta parseFloatDec 50 3 4
              \<lparr>data_b = Some [(''99'', ''2'')], data_a = Some [(''101'', ''4'')],
               data_u = Some 11, data_ts = None\<rparr>
              (applySnapshot 1 2 (mdata scenarioSnapshot)))))"
proof -
  let ?d = "\<lparr>data_b = Some [(''99'', ''2'')], data_a = Some [(''101'', ''4'')],
             data_u = Some (11::int), data_ts = None :: int option\<rparr>"
  let ?B = "applySnapshot 1 2 (mdata scenarioSnapshot)"
  have u: "data_u ?d \<noteq> Some 1" by simp
  have z2: "parseFloatDec ''2'' \<noteq> 0" by code_simp
  have z4: "parseFloatDec ''4'' \<noteq> 0" by code_simp
  have nz: "\<forall>e \<in> set (orEmpty (data_b ?d)) \<union> set (orEmpty (data_a ?d)). parseFloatDec (snd e) \<noteq> 0"
    using z2 z4 by (simp add: orEmpty_def)
  have once: "bids (applyDelta parseFloatDec 50 3 4 ?d ?B) = [(''100'', ''5''), (''99'', ''2'')]"
    "asks (applyDelta parseFloatDec 50 3 4 ?d ?B) = [(''101'', ''4'')]"
    by code_simp+
  have c: "card (fst ` set (bids ?B) \<union> fst ` set (orEmpty (data_b ?d))) \<le> 50"
    by (simp add: applySnapshot_def scenarioSnapshot_def orEmpty_def)
  have m: "map_of (rev (orEmpty (data_b ?d))) ''99'' = Some ''2''"
    by (simp add: orEmpty_def)
  note t = delta_replay_upsert [OF u nz, where depth = 50 and ?t3.0 = 5 and ?t4.0 = 6
      and ?t1.0 = 3 and ?t2.0 = 4 and B = ?B]
  from t have b: "bids (applyDelta parseFloatDec 50 5 6 ?d (applyDelta parseFloatDec 50 3 4 ?d ?B))
      = bids (applyDelta parseFloatDec 50 3 4 ?d ?B)" by (rule conjunct1)
  from t have a: "asks (applyDelta parseFloatDec 50 5 6 ?d (applyDelta parseFloatDec 50 3 4 ?d ?B))
      = asks (applyDelta parseFloatDec 50 3 4 ?d ?B)" by blast
  from t c m have i: "(''99'', ''2'') \<in> set (bids (applyDelta parseFloatDec 50 5 6 ?d
      (applyDelta parseFloatDec 50 3 4 ?d ?B)))" by blast
  from b a i once show ?thesis by simp
qed

text \<open>
  As stated, with a final size for each price of the delta, the claim fails where the
  trim cuts the delta's price: at depth 1, on bids \<open>[["100","5"]]\<close>, the delta
  \<open>{b:[["99","2"]], u:11}\<close> applied twice leaves \<open>[["100","5"]]\<close>, and the price
  \<open>"99"\<close> has no size in the book.
\<close>

theorem delta_replay_trimmed_price:
  "parseFloatDec ''2'' \<noteq> 0
   \<and> bids (applyDelta parseFloatDec 1 5 6
        \<lparr>data_b = Some [(''99'', ''2'')], data_a = None, data_u = Some 11, data_ts = None\<rparr>
        (applyDelta parseFloatDec 1 3 4
           \<lparr>data_b = Some [(''99'', ''2'')], data_a = None, data_u = Some 11, data_ts = None\<rparr>
           \<lparr>bids = [(''100'', ''5'')], asks = [], timestamp = Some 1, updateId = Some 10,
            lastUpdate = Some 2\<rparr>))
     = [(''100'', ''5'')]
   \<and> ''99'' \<notin> fst ` set (bids (applyDelta parseFloatDec 1 5 6
        \<lparr>data_b = Some [(''99'', ''2'')], data_a = None, data_u = Some 11, data_ts = None\<rparr>
        (applyDelta parseFloatDec 1 3 4
           \<lparr>data_b = Some [(''99'', ''2'')], data_a = None, data_u = Some 11, data_ts = None\<rparr>
           \<lparr>bids = [(''100'', ''5'')], asks = [], timestamp = Some 1, updateId = Some 10,
            lastUpdate = Some 2\<rparr>)))"
  by code_simp

subsection \<open>The restart sentinel\<close>

text \<open>
  C7. For every current book, a delta whose update id is the restart sentinel 1 is applied
  as a full replacement: its bid and ask lists become the whole book, its update id 1 the
  book's \<open>updateId\<close> and its \<open>ts\<close> (the clock when absent or 0) the book's
  \<open>timestamp\<close>; the result does not depend on the current book.
\<close>

theorem sentinel_delta_replaces:
  assumes "data_u d = Some 1"
  shows "applyDelta pf depth t1 t2 d currentBook =
           \<lparr>bids = orEmpty (data_b d),
            asks = orEmpty (data_a d),
            timestamp = Some (orNum (data_ts d) t1),
            updateId = Some 1,
            lastUpdate = Some t2\<rparr>"
  using assms by (simp add: applyDelta_def orOpt_def truthy_def)

theorem sentinel_delta_replaces_witness:
  "applyDelta parseFloatDec 50 3 4
     \<lparr>data_b = Some [(''98'', ''7'')], data_a = None, data_u = Some 1, data_ts = Some 9\<rparr>
     \<lparr>bids = [(''100'', ''5'')], asks = [(''101'', ''3'')],
      timestamp = Some 1, updateId = Some 10, lastUpdate = Some 2\<rparr>
   = \<lparr>bids = [(''98'', ''7'')], asks = [],
      timestamp = Some 9, updateId = Some 1, lastUpdate = Some 4\<rparr>"
proof -
  have u: "data_u \<lparr>data_b = Some [(''98'', ''7'')], data_a = None, data_u = Some 1,
             data_ts = Some (9::int)\<rparr> = Some 1" by simp
  show ?thesis
    using sentinel_delta_replaces [OF u, of parseFloatDec 50 3 4]
    by (simp add: orEmpty_def orNum_def)
qed

subsection \<open>The snapshot cache\<close>

text \<open>
  C8. The cache entry of a key is overwritten exactly by an upstream order-book message of
  type snapshot whose topic gives that key, with that message; no client message changes
  the cache. A client whose socket is open and that subscribes is sent, in the handler
  itself, the cached snapshot of each symbol it names that has one, then the
  acknowledgment; a live message that arrives afterwards comes after them in what the
  client is sent.
\<close>

theorem snapshot_cache_and_replay:
  assumes "clientOpen st i" and "cd_type cdata \<noteq> Some ''ping''"
    and "cd_action cdata = Some ''subscribe''" and "cd_symbols cdata = Some symbols"
    and "orderbookData live"
  shows "mapGet (snapshotCache (handleBybitMessage m st)) k
           = (if orderbookData m \<and> mtype m = Some ''snapshot'' \<and> cacheKey m = k then Some m
              else mapGet (snapshotCache st) k)
       \<and> snapshotCache (handleClientMessage j now' cdata' st) = snapshotCache st
       \<and> outboxOf (handleClientMessage i now cdata st) i
           = outboxOf st i @ cachedFor st (orNat (cd_depth cdata) 50) symbols
               @ [Subscribed symbols (orNat (cd_depth cdata) 50)]
       \<and> outboxOf (handleBybitMessage live (handleClientMessage i now cdata st)) i
           = outboxOf st i @ cachedFor st (orNat (cd_depth cdata) 50) symbols
               @ [Subscribed symbols (orNat (cd_depth cdata) 50), Data live]"
proof -
  note sub = handleClientMessage_subscribe [OF assms(1-4), of now]
  have "outboxOf (handleBybitMessage live (handleClientMessage i now cdata st)) i
          = outboxOf (handleClientMessage i now cdata st) i @ [Data live]"
    using sub(2) by (simp add: handleBybitMessage_outbox [OF assms(5)])
  with sub(1) show ?thesis
    by (simp add: handleBybitMessage_cache handleClientMessage_cache)
qed

theorem snapshot_cache_and_replay_witness:
  "mapGet (snapshotCache cachedOnce) ''BTCUSDT-50'' = Some scenarioSnapshot
   \<and> outboxOf (handleBybitMessage scenarioDelta
        (handleClientMessage 0 8
           \<lparr>cd_type = None, cd_action = Some ''subscribe'', cd_symbols = Some [''BTCUSDT''],
            cd_depth = None\<rparr> cachedOnce)) 0
     = [Subscribed [''BTCUSDT''] 200, Data scenarioSnapshot,
        Data scenarioSnapshot, Subscribed [''BTCUSDT''] 50, Data scenarioDelta]"
proof -
  let ?cd = "\<lparr>cd_type = None, cd_action = Some ''subscribe'', cd_symbols = Some [''BTCUSDT''],
            cd_depth = None\<rparr>"
  have o: "clientOpen cachedOnce 0" by code_simp
  have p: "cd_type ?cd \<noteq> Some ''ping''" by simp
  have a: "cd_action ?cd = Some ''subscribe''" by simp
  have s: "cd_symbols ?cd = Some [''BTCUSDT'']" by simp
  have l: "orderbookData scenarioDelta" by code_simp
  have c: "mapGet (snapshotCache cachedOnce) ''BTCUSDT-50'' = Some scenarioSnapshot" by code_simp
  have b: "outboxOf cachedOnce 0 = [Subscribed [''BTCUSDT''] 200, Data scenarioSnapshot]"
    by code_simp
  have r: "cachedFor cachedOnce 50 [''BTCUSDT''] = [Data scenarioSnapshot]"
    by code_simp
  have d: "orNat None 50 = 50" by (simp add: orNat_def)
  from snapshot_cache_and_replay [OF o p a s l, of scenarioSnapshot "''BTCUSDT-50''" 0 8 ?cd 8]
  have "outboxOf (handleBybitMessage scenarioDelta (handleClientMessage 0 8 ?cd cachedOnce)) 0
           = outboxOf cachedOnce 0 @ cachedFor cachedOnce (orNat (cd_depth ?cd) 50) [''BTCUSDT'']
               @ [Subscribed [''BTCUSDT''] (orNat (cd_depth ?cd) 50), Data scenarioDelta]"
    by blast
  then show ?thesis using c by (simp add: d r b)
qed

subsection \<open>The two hooks\<close>

text \<open>
  C9. The \<open>applyDelta\<close> of useOrderBook, trimming to its \<open>depth\<close>, and the
  \<open>applyDelta\<close> of useOrderBookAuto, trimming to the depth of the selected source,
  compute the same bids, asks and \<open>updateId\<close> for every book and every delta, when the
  source's depth is that \<open>depth\<close>.
\<close>

theorem applyDelta_hooks_agree:
  assumes "depths manualSource = Some depth"
  shows "bids (fst (applyDeltaAuto pf manualSource t1 t2 d currentBook))
           = bids (applyDelta pf depth t1 t2 d currentBook)
       \<and> asks (fst (applyDeltaAuto pf manualSource t1 t2 d currentBook))
           = asks (applyDelta pf depth t1 t2 d currentBook)
       \<and> updateId (fst (applyDeltaAuto pf manualSource t1 t2 d currentBook))
           = updateId (applyDelta pf depth t1 t2 d currentBook)"
  using assms
  by (simp add: applyDeltaAuto_def applyDelta_def patchSideAuto_def patchSide_def slice0_def
        Let_def split: option.splits)

theorem applyDelta_hooks_agree_witness:
  "bids (fst (applyDeltaAuto parseFloatDec ''L50'' 3 4 (mdata scenarioDelta)
                (applySnapshot 1 2 (mdata scenarioSnapshot))))
     = bids (applyDelta parseFloatDec 50 3 4 (mdata scenarioDelta)
                (applySnapshot 1 2 (mdata scenarioSnapshot)))
   \<and> asks (fst (applyDeltaAuto parseFloatDec ''L50'' 3 4 (mdata scenarioDelta)
                (applySnapshot 1 2 (mdata scenarioSnapshot))))
     = asks (applyDelta parseFloatDec 50 3 4 (mdata scenarioDelta)
                (applySnapshot 1 2 (mdata scenarioSnapshot)))
   \<and> updateId (fst (applyDeltaAuto parseFloatDec ''L50'' 3 4 (mdata scenarioDelta)
                (applySnapshot 1 2 (mdata scenarioSnapshot))))
     = updateId (applyDelta parseFloatDec 50 3 4 (mdata scenarioDelta)
                (applySnapshot 1 2 (mdata scenarioSnapshot)))"
proof -
  have d: "depths ''L50'' = Some 50" by (simp add: depths_def)
  show ?thesis by (rule applyDelta_hooks_agree [OF d])
qed

subsection \<open>Broadcast\<close>

text \<open>
  C10. Every upstream order-book data message, snapshot or delta and whatever its topic,
  is sent as it came to every client whose socket is open, and to no other; what a client
  gets depends on its socket's state alone, not on any subscription.
\<close>

theorem broadcast_to_every_open_client:
  assumes "orderbookData m"
  shows "clientWss (handleBybitMessage m st) = map_option (map (deliver m)) (clientWss st)
       \<and> (\<forall>i. outboxOf (handleBybitMessage m st) i
             = (if clientOpen st i then outboxOf st i @ [Data m] else outboxOf st i))"
  using assms by (simp add: handleBybitMessage_clients handleBybitMessage_outbox)

theorem broadcast_to_every_open_client_witness:
  "clientWss (handleBybitMessage scenarioDelta
      (newProxy\<lparr>clientWss := Some [\<lparr>readyState = OPEN, outbox = []\<rparr>,
                                    \<lparr>readyState = CLOSED, outbox = []\<rparr>]\<rparr>))
     = Some [\<lparr>readyState = OPEN, outbox = [Data scenarioDelta]\<rparr>,
             \<lparr>readyState = CLOSED, outbox = []\<rparr>]"
proof -
  have l: "orderbookData scenarioDelta" by code_simp
  from broadcast_to_every_open_client [OF l]
  have "clientWss (handleBybitMessage scenarioDelta
      (newProxy\<lparr>clientWss := Some [\<lparr>readyState = OPEN, outbox = []\<rparr>,
                                    \<lparr>readyState = CLOSED, outbox = []\<rparr>]\<rparr>))
     = map_option (map (deliver scenarioDelta))
         (clientWss (newProxy\<lparr>clientWss := Some [\<lparr>readyState = OPEN, outbox = []\<rparr>,
                                    \<lparr>readyState = CLOSED, outbox = []\<rparr>]\<rparr>))"
    by (rule conjunct1)
  then show ?thesis by (simp add: deliver_def)
qed

end
